theory Spec2Isabelle
  imports Main "HOL-Library.Word"
begin

unbundle bit_operations_syntax

section \<open>Build-time constants\<close>

text \<open>
  Constants the source defines itself: \<^verbatim>\<open>F_CPU\<close> (the default of line 135),
  \<^verbatim>\<open>BOOTSIZE\<close> (line 166, in words), \<^verbatim>\<open>MAX_TIME_COUNT\<close> (line 387).
\<close>

definition F_CPU :: "32 word" where
  "F_CPU = 16000000"

definition BOOTSIZE :: "32 word" where
  "BOOTSIZE = 4096"

definition MAX_TIME_COUNT :: "32 word" where
  "MAX_TIME_COUNT = drop_bit 1 F_CPU"

text \<open>
  Constants of the device header of avr-libc for the ATmega256RFR2, the controller of the
  board this firmware is built for: the last byte address of the flash, the page size in
  bytes, and the bit numbers of the watchdog control register.  The device has
  \<^verbatim>\<open>RAMPZ\<close>, so \<^verbatim>\<open>address_t\<close> is \<^verbatim>\<open>uint32_t\<close>; \<^verbatim>\<open>unsigned int\<close> has 16 bits.
\<close>

definition FLASHEND :: "32 word" where
  "FLASHEND = 0x3FFFF"

definition SPM_PAGESIZE :: nat where
  "SPM_PAGESIZE = 256"

definition WDCE :: nat where
  "WDCE = 4"

definition WDE :: nat where
  "WDE = 3"

definition BV :: "nat \<Rightarrow> 8 word" where
  "BV b = push_bit b 1"

definition APP_END :: "32 word" where
  "APP_END = FLASHEND - 2 * BOOTSIZE + 1"

text \<open>
  \<^verbatim>\<open>MESSAGE_START\<close> comes from \<^verbatim>\<open>command.h\<close>, which is not among the sources: the
  functions below take it as the parameter \<open>ms\<close>.
\<close>

section \<open>The machine state\<close>

text \<open>The states of the receive state machine (lines 300 to 307).\<close>

datatype parse_state =
  ST_START | ST_GET_SEQ_NUM | ST_MSG_SIZE_1 | ST_MSG_SIZE_2
  | ST_GET_TOKEN | ST_GET_DATA | ST_GET_CHECK | ST_PROCESS

text \<open>
  What the firmware does to the hardware, in program order: the register stores and
  instructions of the start-up code, the self-programming primitives of
  \<^verbatim>\<open>avr/boot.h\<close>, a byte sent by \<^verbatim>\<open>sendchar\<close>, and the call through \<^verbatim>\<open>app_start\<close>.
\<close>

datatype event =
  Store_GPIOR0 "8 word" | Cli | Wdr | Store_MCUSR "8 word" | Store_WDTCSR "8 word" | Sei
  | Uart_init | Nop
  | Page_erase "32 word" | Spm_busy_wait | Page_fill "32 word" "16 word"
  | Page_write "32 word" | Rww_enable
  | Sendchar "8 word" | App_start

text \<open>
  The locals of \<^verbatim>\<open>main\<close>, the three registers the start-up code touches, the serial
  line and the events so far.  The serial line \<open>uart\<close> lists what successive tests of the
  receive-complete flag will find: \<open>Some b\<close> when the flag is set and the data register
  holds \<open>b\<close>, \<open>None\<close> when it is clear; when the list has run out the flag stays clear
  for good (the host has stopped sending).
\<close>

record state =
  address :: "32 word"
  msgParseState :: parse_state
  ii :: "16 word"
  msgLength :: "16 word"
  c :: "8 word"
  isLeave :: "8 word"
  isTimeout :: "8 word"
  GPIOR0 :: "8 word"
  MCUSR :: "8 word"
  WDTCSR :: "8 word"
  uart :: "8 word option list"
  trace :: "event list"

section \<open>Receiving a byte\<close>


text \<open>
  \<^verbatim>\<open>recchar_timeout\<close> (lines 389 to 404): the same wait with a counter.  The loop takes
  the line, \<^verbatim>\<open>count\<close> and the value behind the pointer \<^verbatim>\<open>timedout\<close>, and returns the
  byte, the rest of the line and the new value behind the pointer.
\<close>

function recchar_timeout_loop ::
  "8 word option list \<Rightarrow> 32 word \<Rightarrow> 8 word \<Rightarrow> 8 word \<times> 8 word option list \<times> 8 word" where
  "recchar_timeout_loop (Some b # u) count timedout = (b, u, timedout)"
| "recchar_timeout_loop (None # u) count timedout =
     (if count + 1 > MAX_TIME_COUNT then (0, u, 1)
      else recchar_timeout_loop u (count + 1) timedout)"
| "recchar_timeout_loop [] count timedout =
     (if count + 1 > MAX_TIME_COUNT then (0, [], 1)
      else recchar_timeout_loop [] (count + 1) timedout)"
  by pat_completeness auto
termination
proof (relation "measure (\<lambda>(u, count, timedout). unat (MAX_TIME_COUNT - count))")
  have step: "unat (MAX_TIME_COUNT - (count + 1)) < unat (MAX_TIME_COUNT - count)"
    if "\<not> MAX_TIME_COUNT < count + 1" for count :: "32 word"
  proof -
    have "count \<noteq> MAX_TIME_COUNT"
      using that by (auto simp: MAX_TIME_COUNT_def F_CPU_def)
    then have nz: "MAX_TIME_COUNT - count \<noteq> 0"
      by simp
    then have "0 < unat (MAX_TIME_COUNT - count)"
      by (simp add: unat_gt_0)
    then have "unat (MAX_TIME_COUNT - count - 1) < unat (MAX_TIME_COUNT - count)"
      using unat_minus_one [OF nz] by simp
    then show ?thesis
      by (simp add: diff_diff_eq)
  qed
  show "wf (measure (\<lambda>(u, count, timedout). unat (MAX_TIME_COUNT - count)))"
    by simp
  show "((u, count + 1, timedout), None # u, count, timedout)
      \<in> measure (\<lambda>(u, count, timedout). unat (MAX_TIME_COUNT - count))"
    if "\<not> MAX_TIME_COUNT < count + 1" for u :: "8 word option list" and count and timedout :: "8 word"
    using step [OF that] by simp
  show "(([], count + 1, timedout), [], count, timedout)
      \<in> measure (\<lambda>(u, count, timedout). unat (MAX_TIME_COUNT - count))"
    if "\<not> MAX_TIME_COUNT < count + 1" for count and timedout :: "8 word"
    using step [OF that] by simp
qed

definition recchar_timeout ::
  "8 word option list \<Rightarrow> 8 word \<Rightarrow> 8 word \<times> 8 word option list \<times> 8 word" where
  "recchar_timeout u timedout = recchar_timeout_loop u 0 timedout"

section \<open>Collecting a message\<close>

text \<open>
  One turn of the inner loop (lines 465 to 495): read a byte, then the \<^verbatim>\<open>switch\<close>.  Only
  four of the eight states have a case; in the others the byte is dropped.  The byte
  \<^verbatim>\<open>c\<close> is widened before \<^verbatim>\<open>c<<8\<close>, and the result is stored in a 16-bit variable.  A
  read that timed out has returned 0 and still goes through the \<^verbatim>\<open>switch\<close>.
\<close>

definition collect_step :: "8 word \<Rightarrow> state \<Rightarrow> state" where
  "collect_step ms s =
     (case recchar_timeout (uart s) (isTimeout s) of (b, u, t) \<Rightarrow>
        let s1 = s\<lparr>c := b, uart := u, isTimeout := t\<rparr> in
        (case msgParseState s1 of
           ST_START \<Rightarrow>
             if c s1 = ms then s1\<lparr>msgParseState := ST_MSG_SIZE_1\<rparr> else s1
         | ST_MSG_SIZE_1 \<Rightarrow>
             s1\<lparr>msgLength := push_bit 8 (ucast (c s1)), msgParseState := ST_MSG_SIZE_2\<rparr>
         | ST_MSG_SIZE_2 \<Rightarrow>
             s1\<lparr>msgLength := msgLength s1 OR ucast (c s1), msgParseState := ST_GET_DATA,
                ii := 0\<rparr>
         | ST_GET_DATA \<Rightarrow>
             if ii s1 = msgLength s1 then s1\<lparr>msgParseState := ST_PROCESS\<rparr> else s1
         | _ \<Rightarrow> s1))"

text \<open>
  A read either takes at least one entry off the line or sets the flag behind the
  pointer; this is what makes the loops below end on every finite line.
\<close>

lemma recchar_timeout_loop_progress:
  "recchar_timeout_loop u count t = (b, u', t') \<Longrightarrow>
     (t' = 1 \<and> length u' \<le> length u) \<or> (t' = t \<and> length u' < length u)"
  by (induction u count t rule: recchar_timeout_loop.induct) (auto split: if_splits)

definition budget :: "state \<Rightarrow> nat" where
  "budget s = length (uart s) + (if isTimeout s = 0 then 1 else 0)"

lemma collect_step_uart:
  "recchar_timeout (uart s) (isTimeout s) = (b, u, t) \<Longrightarrow>
     uart (collect_step ms s) = u \<and> isTimeout (collect_step ms s) = t"
  by (simp add: collect_step_def Let_def split: parse_state.splits)

lemma collect_step_budget:
  assumes "isTimeout s = 0"
  shows "budget (collect_step ms s) < budget s"
proof -
  obtain b u t where r: "recchar_timeout (uart s) (isTimeout s) = (b, u, t)"
    by (cases "recchar_timeout (uart s) (isTimeout s)") auto
  from r have "(t = 1 \<and> length u \<le> length (uart s)) \<or> (t = 0 \<and> length u < length (uart s))"
    using recchar_timeout_loop_progress [of "uart s" 0 "isTimeout s" b u t] assms
    by (simp add: recchar_timeout_def)
  with collect_step_uart [OF r, of ms] assms show ?thesis
    by (auto simp: budget_def)
qed

text \<open>The inner loop (lines 463 to 496).\<close>

function collect :: "8 word \<Rightarrow> state \<Rightarrow> state" where
  "collect ms s =
     (if msgParseState s \<noteq> ST_PROCESS \<and> isLeave s = 0 \<and> isTimeout s = 0
      then collect ms (collect_step ms s) else s)"
  by pat_completeness auto
termination
  by (relation "measure (\<lambda>(ms, s). budget s)") (auto intro: collect_step_budget)

declare collect.simps [simp del]

section \<open>The page operation\<close>

text \<open>
  The \<^verbatim>\<open>do\<close> loop of lines 512 to 518, with \<^verbatim>\<open>size\<close> a 16-bit counter.  It stops when
  \<^verbatim>\<open>size\<close> reaches 0, which an odd start never does: not returning is \<open>None\<close>.
\<close>

partial_function (option) fill_loop ::
  "32 word \<Rightarrow> 16 word \<Rightarrow> event list \<Rightarrow> (32 word \<times> 16 word \<times> event list) option" where
  "fill_loop tempAddress sz tr =
     (let data = 0xcfff;
          tr1 = tr @ [Page_fill tempAddress data];
          tempAddress1 = tempAddress + 2;
          sz1 = sz - 2
      in if sz1 \<noteq> 0 then fill_loop tempAddress1 sz1 tr1 else Some (tempAddress1, sz1, tr1))"

text \<open>
  Lines 502 to 529: erase the page at \<^verbatim>\<open>address\<close>, fill the page buffer, write the
  page, then move \<^verbatim>\<open>address\<close> on.  Nothing of the message is looked at.
\<close>

definition process_page :: "state \<Rightarrow> state option" where
  "process_page s =
     (case fill_loop (address s) (of_nat SPM_PAGESIZE)
             (trace s @ [Page_erase (address s), Spm_busy_wait]) of
        None \<Rightarrow> None
      | Some (tempAddress, sz, tr) \<Rightarrow>
          let s1 = s\<lparr>trace := tr @ [Page_write (address s), Spm_busy_wait, Rww_enable]\<rparr>;
              s2 = s1\<lparr>msgLength := 2\<rparr>;
              s3 = s2\<lparr>address := address s2 + of_nat SPM_PAGESIZE\<rparr>
          in Some (if address s3 + of_nat SPM_PAGESIZE > APP_END + 1
                   then s3\<lparr>address := (FLASHEND + 1) div 2\<rparr> else s3))"

section \<open>The main loop\<close>

text \<open>One turn of the main loop (lines 459 to 529).\<close>

definition main_body :: "8 word \<Rightarrow> state \<Rightarrow> state option" where
  "main_body ms s = process_page (collect ms (s\<lparr>msgParseState := ST_START\<rparr>))"

lemma collect_budget_le: "budget (collect ms s) \<le> budget s"
proof (induction ms s rule: collect.induct)
  case (1 ms s)
  show ?case
  proof (cases "msgParseState s \<noteq> ST_PROCESS \<and> isLeave s = 0 \<and> isTimeout s = 0")
    case True
    then have "collect ms s = collect ms (collect_step ms s)"
      by (subst collect.simps) simp
    with "1" [OF True] collect_step_budget [of s ms] True show ?thesis
      by simp
  next
    case False
    then have "collect ms s = s"
      by (subst collect.simps) auto
    then show ?thesis by simp
  qed
qed

lemma process_page_line:
  "process_page s = Some s' \<Longrightarrow> uart s' = uart s \<and> isTimeout s' = isTimeout s"
  by (auto simp: process_page_def Let_def split: option.splits if_splits)

lemma main_body_budget:
  assumes "isLeave s = 0" "isTimeout s = 0" "main_body ms s = Some s'"
  shows "budget s' < budget s"
proof -
  let ?s0 = "s\<lparr>msgParseState := ST_START\<rparr>"
  have "collect ms ?s0 = collect ms (collect_step ms ?s0)"
    using assms by (subst collect.simps) simp
  moreover have "budget (collect_step ms ?s0) < budget ?s0"
    using assms by (intro collect_step_budget) simp
  ultimately have "budget (collect ms ?s0) < budget ?s0"
    using collect_budget_le [of ms "collect_step ms ?s0"] by simp
  moreover have "budget s' = budget (collect ms ?s0)"
    using process_page_line [of "collect ms ?s0" s'] assms
    by (simp add: main_body_def budget_def)
  ultimately show ?thesis
    by (simp add: budget_def)
qed

text \<open>The loop of lines 457 to 531.\<close>

function main_loop :: "8 word \<Rightarrow> state \<Rightarrow> state option" where
  "main_loop ms s =
     (if isLeave s = 0 \<and> isTimeout s = 0
      then (case main_body ms s of None \<Rightarrow> None | Some s' \<Rightarrow> main_loop ms s')
      else Some s)"
  by pat_completeness auto
termination
  by (relation "measure (\<lambda>(ms, s). budget s)") (auto intro: main_body_budget)

declare main_loop.simps [simp del]

text \<open>
  The outer \<^verbatim>\<open>for(;;)\<close> (lines 455 to 533) has no exit; \<open>main_for n\<close> is the state after
  \<open>n\<close> passes.
\<close>

fun main_for :: "nat \<Rightarrow> 8 word \<Rightarrow> state \<Rightarrow> state option" where
  "main_for 0 ms s = Some s"
| "main_for (Suc n) ms s =
     (case main_loop ms s of None \<Rightarrow> None | Some s' \<Rightarrow> main_for n ms s')"

section \<open>Start-up\<close>

text \<open>
  Lines 432 to 440.  A register is read back as it was last stored.
\<close>

definition startup :: "state \<Rightarrow> state" where
  "startup s =
     (let s1 = s\<lparr>GPIOR0 := MCUSR s, trace := trace s @ [Store_GPIOR0 (MCUSR s)]\<rparr>;
          s2 = s1\<lparr>trace := trace s1 @ [Cli, Wdr]\<rparr>;
          s3 = s2\<lparr>MCUSR := 0, trace := trace s2 @ [Store_MCUSR 0]\<rparr>;
          s4 = s3\<lparr>WDTCSR := WDTCSR s3 OR (BV WDCE OR BV WDE),
                  trace := trace s3 @ [Store_WDTCSR (WDTCSR s3 OR (BV WDCE OR BV WDE))]\<rparr>;
          s5 = s4\<lparr>WDTCSR := 0, trace := trace s4 @ [Store_WDTCSR 0]\<rparr>
      in s5\<lparr>trace := trace s5 @ [Sei]\<rparr>)"

text \<open>
  \<^verbatim>\<open>sendchar\<close> (lines 359 to 364) and the call through the pointer \<^verbatim>\<open>app_start\<close> (line
  407), as events.  The source defines both; \<^verbatim>\<open>main\<close> calls neither.
\<close>

definition sendchar :: "8 word \<Rightarrow> state \<Rightarrow> state" where
  "sendchar b s = s\<lparr>trace := trace s @ [Sendchar b]\<rparr>"

definition app_start :: "state \<Rightarrow> state" where
  "app_start s = s\<lparr>trace := trace s @ [App_start]\<rparr>"

text \<open>
  \<^verbatim>\<open>main\<close> (lines 410 to 534) from the state \<open>s\<close> the reset leaves behind: the
  initialisers of the locals, the start-up code, the set-up of the serial port (one
  event; its baud-rate arithmetic is not modelled), and \<open>n\<close> passes of the outer loop.
  The stack set-up of lines 421 to 425 touches none of these variables and is left out.
  The events are counted from here.
\<close>

definition main :: "nat \<Rightarrow> 8 word \<Rightarrow> state \<Rightarrow> state option" where
  "main n ms s =
     (let s1 = s\<lparr>address := (FLASHEND + 1) div 2, ii := 0, msgLength := 0,
                 isLeave := 0, isTimeout := 0, trace := []\<rparr>;
          s2 = startup s1;
          s3 = s2\<lparr>trace := trace s2 @ [Uart_init, Nop]\<rparr>
      in main_for n ms s3)"

section \<open>Derived descriptions\<close>

text \<open>
  The events of one page operation at the address \<open>a\<close>: the erase, one fill of the word
  \<^verbatim>\<open>0xcfff\<close> for each of the \<^verbatim>\<open>SPM_PAGESIZE / 2\<close> words of the page, the write.
\<close>

definition page_events :: "32 word \<Rightarrow> event list" where
  "page_events a =
     [Page_erase a, Spm_busy_wait]
     @ map (\<lambda>k. Page_fill (a + 2 * of_nat k) 0xcfff) [0..<SPM_PAGESIZE div 2]
     @ [Page_write a, Spm_busy_wait, Rww_enable]"

text \<open>Lines 526 to 528 as a function of the address.\<close>

definition advance :: "32 word \<Rightarrow> 32 word" where
  "advance a =
     (if a + of_nat SPM_PAGESIZE + of_nat SPM_PAGESIZE > APP_END + 1
      then (FLASHEND + 1) div 2 else a + of_nat SPM_PAGESIZE)"

text \<open>The events before the outer loop, for the register values \<open>m\<close> and \<open>w\<close> at reset.\<close>

definition startup_events :: "8 word \<Rightarrow> 8 word \<Rightarrow> event list" where
  "startup_events m w =
     [Store_GPIOR0 m, Cli, Wdr, Store_MCUSR 0, Store_WDTCSR (w OR (BV WDCE OR BV WDE)),
      Store_WDTCSR 0, Sei, Uart_init, Nop]"

text \<open>A state after reset with the line \<open>u\<close>, for concrete runs.\<close>

definition reset_state :: "8 word option list \<Rightarrow> state" where
  "reset_state u =
     \<lparr>address = 0, msgParseState = ST_START, ii = 0, msgLength = 0, c = 0, isLeave = 0,
      isTimeout = 0, GPIOR0 = 0, MCUSR = 8, WDTCSR = 0x0F, uart = u, trace = []\<rparr>"

text \<open>
  The addresses the main loop works at: page-aligned, from the middle of the flash on, with
  the whole page below \<^verbatim>\<open>APP_END\<close>.
\<close>

definition cursor_inv :: "32 word \<Rightarrow> bool" where
  "cursor_inv a \<longleftrightarrow>
     unat ((FLASHEND + 1) div 2) \<le> unat a \<and> unat a + SPM_PAGESIZE \<le> unat APP_END
     \<and> SPM_PAGESIZE dvd unat a"

text \<open>
  Where a page event may reach.  \<open>within_bound\<close>: the page of an erase or a write ends at
  \<^verbatim>\<open>APP_END + 1\<close> at the latest.  \<open>below_boot\<close>: every byte the event touches lies below
  \<^verbatim>\<open>APP_END\<close>, the first byte of the \<^verbatim>\<open>2 * BOOTSIZE\<close> bytes at the top of the flash.
\<close>

fun within_bound :: "event \<Rightarrow> bool" where
  "within_bound (Page_erase a) = (unat a + SPM_PAGESIZE \<le> unat APP_END + 1)"
| "within_bound (Page_write a) = (unat a + SPM_PAGESIZE \<le> unat APP_END + 1)"
| "within_bound _ = True"

fun below_boot :: "event \<Rightarrow> bool" where
  "below_boot (Page_erase a) = (unat a + SPM_PAGESIZE \<le> unat APP_END)"
| "below_boot (Page_write a) = (unat a + SPM_PAGESIZE \<le> unat APP_END)"
| "below_boot (Page_fill a d) = (unat a + 2 \<le> unat APP_END)"
| "below_boot _ = True"

text \<open>
  The frame as the specification describes it, for comparison with what the code accepts:
  start marker, sequence number, 16-bit length (high byte first), command token, as many
  payload bytes as the length says, and a last byte equal to the exclusive-or of all the
  bytes before it.  \<open>has_spec_frame\<close>: some stretch of the bytes is such a frame.
\<close>

definition checksum :: "8 word list \<Rightarrow> 8 word" where
  "checksum bs = fold (XOR) bs 0"

definition is_spec_frame :: "8 word \<Rightarrow> 8 word list \<Rightarrow> bool" where
  "is_spec_frame ms bs \<longleftrightarrow>
     (case bs of
        m # seq # hi # lo # tok # rest \<Rightarrow>
          m = ms \<and> length rest = unat (push_bit 8 (ucast hi) OR ucast lo :: 16 word) + 1
          \<and> last rest = checksum (butlast bs)
      | _ \<Rightarrow> False)"

definition has_spec_frame :: "8 word \<Rightarrow> 8 word list \<Rightarrow> bool" where
  "has_spec_frame ms bs =
     list_ex (\<lambda>i. list_ex (\<lambda>n. is_spec_frame ms (take n (drop i bs))) [0..<Suc (length bs)])
       [0..<length bs]"

text \<open>
  The rule for the address as the specification words it: one page further, or the middle
  of the flash when that sum would exceed \<^verbatim>\<open>APP_END\<close>.
\<close>

definition spec_next_cursor :: "32 word \<Rightarrow> 32 word" where
  "spec_next_cursor a =
     (if a + of_nat SPM_PAGESIZE > APP_END then (FLASHEND + 1) div 2
      else a + of_nat SPM_PAGESIZE)"

text \<open>
  A line on which bytes arrive with delays: \<open>line [(d1, b1), (d2, b2), ...]\<close> shows the
  flag clear \<open>d1\<close> times, then the byte \<open>b1\<close>, clear \<open>d2\<close> times, then \<open>b2\<close>, and so on;
  after the last byte it stays silent.  \<open>in_time\<close>: every byte arrives before the counter
  of \<^verbatim>\<open>recchar_timeout\<close> runs out.
\<close>

fun line :: "(nat \<times> 8 word) list \<Rightarrow> 8 word option list" where
  "line [] = []"
| "line ((d, b) # xs) = replicate d None @ Some b # line xs"

definition in_time :: "(nat \<times> 8 word) list \<Rightarrow> bool" where
  "in_time xs = list_all (\<lambda>(d, b). d \<le> unat MAX_TIME_COUNT) xs"

section \<open>Facts about the byte reads\<close>

lemma MAX_TIME_COUNT_unat: "unat MAX_TIME_COUNT = 8000000"
  by (simp add: MAX_TIME_COUNT_def F_CPU_def drop_bit_eq_div)

lemma count_succ:
  fixes count :: "32 word"
  assumes "unat count \<le> unat MAX_TIME_COUNT"
  shows "unat (count + 1) = unat count + 1"
    and "MAX_TIME_COUNT < count + 1 \<longleftrightarrow> unat count = unat MAX_TIME_COUNT"
proof -
  have "unat count + unat (1 :: 32 word) < 2 ^ LENGTH(32)"
    using assms by (simp add: MAX_TIME_COUNT_unat)
  then have "unat (count + 1) = unat count + unat (1 :: 32 word)"
    by (simp only: unat_add_lem [THEN iffD1])
  then show a: "unat (count + 1) = unat count + 1"
    by simp
  show "MAX_TIME_COUNT < count + 1 \<longleftrightarrow> unat count = unat MAX_TIME_COUNT"
    using assms by (auto simp: word_less_nat_alt a)
qed

lemma recchar_timeout_loop_eq:
  "unat count \<le> unat MAX_TIME_COUNT \<Longrightarrow>
   recchar_timeout_loop u count t =
     (let k = length (takeWhile (\<lambda>p. p = None) u) in
      if k < length u \<and> unat count + k \<le> unat MAX_TIME_COUNT
      then (the (u ! k), drop (Suc k) u, t)
      else (0, drop (unat MAX_TIME_COUNT + 1 - unat count) u, 1))"
proof (induction u count t rule: recchar_timeout_loop.induct)
  case (1 b u count timedout)
  then show ?case by simp
next
  case (2 u count timedout)
  show ?case
  proof (cases "unat count = unat MAX_TIME_COUNT")
    case True
    then show ?thesis
      using count_succ(2) [of count] by (simp add: Let_def)
  next
    case False
    with "2.prems" have lt: "unat count < unat MAX_TIME_COUNT" by simp
    then have n: "\<not> MAX_TIME_COUNT < count + 1" and s: "unat (count + 1) = unat count + 1"
      using count_succ [of count] by simp_all
    have "unat (count + 1) \<le> unat MAX_TIME_COUNT" using lt s by simp
    from "2.IH" [OF n this] n s lt show ?thesis
      by (simp add: Let_def Suc_diff_le)
  qed
next
  case (3 count timedout)
  show ?case
  proof (cases "unat count = unat MAX_TIME_COUNT")
    case True
    then show ?thesis
      using count_succ(2) [of count] by (simp add: Let_def)
  next
    case False
    with "3.prems" have lt: "unat count < unat MAX_TIME_COUNT" by simp
    then have n: "\<not> MAX_TIME_COUNT < count + 1" and s: "unat (count + 1) = unat count + 1"
      using count_succ [of count] by simp_all
    have "unat (count + 1) \<le> unat MAX_TIME_COUNT" using lt s by simp
    from "3.IH" [OF n this] n show ?thesis
      by (simp add: Let_def)
  qed
qed

lemma recchar_timeout_eq:
  "recchar_timeout u t =
     (let k = length (takeWhile (\<lambda>p. p = None) u) in
      if k < length u \<and> k \<le> unat MAX_TIME_COUNT
      then (the (u ! k), drop (Suc k) u, t)
      else (0, drop (unat MAX_TIME_COUNT + 1) u, 1))"
  using recchar_timeout_loop_eq [of 0 u t] by (simp add: recchar_timeout_def Let_def)

lemma recchar_timeout_Some [simp]: "recchar_timeout (Some b # u) t = (b, u, t)"
  by (simp add: recchar_timeout_def)

lemma recchar_timeout_Nil [simp]: "recchar_timeout [] t = (0, [], 1)"
  by (simp add: recchar_timeout_eq)

section \<open>Facts about the page operation\<close>

lemma fill_loop_even:
  "0 < n \<Longrightarrow> n < 32768 \<Longrightarrow>
   fill_loop a (of_nat (2 * n)) tr =
     Some (a + of_nat (2 * n), 0, tr @ map (\<lambda>k. Page_fill (a + 2 * of_nat k) 0xcfff) [0..<n])"
proof (induction n arbitrary: a tr)
  case 0
  then show ?case by simp
next
  case (Suc n)
  show ?case
  proof (cases "n = 0")
    case True
    then show ?thesis
      by (subst fill_loop.simps) simp
  next
    case False
    then have pos: "0 < n" by simp
    have lt: "n < 32768" using Suc.prems by simp
    have nz: "(of_nat (2 * n) :: 16 word) \<noteq> 0"
      by (rule of_nat_neq_0) (use pos lt in simp_all)
    have dec: "(of_nat (2 * Suc n) :: 16 word) - 2 = of_nat (2 * n)"
      by simp
    have shift: "map (\<lambda>k. Page_fill (a + 2 * of_nat k) 0xcfff) [0..<Suc n] =
        Page_fill a 0xcfff # map (\<lambda>k. Page_fill (a + 2 + 2 * of_nat k) 0xcfff) [0..<n]"
      by (simp add: upt_conv_Cons map_Suc_upt [symmetric] del: upt_Suc)
    have "fill_loop a (of_nat (2 * Suc n)) tr =
        fill_loop (a + 2) (of_nat (2 * n)) (tr @ [Page_fill a 0xcfff])"
      by (subst fill_loop.simps) (simp only: Let_def dec nz, simp)
    also have "\<dots> = Some (a + 2 + of_nat (2 * n), 0,
        (tr @ [Page_fill a 0xcfff]) @ map (\<lambda>k. Page_fill (a + 2 + 2 * of_nat k) 0xcfff) [0..<n])"
      by (rule Suc.IH [OF pos lt])
    also have "\<dots> = Some (a + of_nat (2 * Suc n), 0,
        tr @ map (\<lambda>k. Page_fill (a + 2 * of_nat k) 0xcfff) [0..<Suc n])"
      by (simp only: shift) simp
    finally show ?thesis .
  qed
qed

lemma fill_loop_page:
  "fill_loop a (of_nat SPM_PAGESIZE) tr =
     Some (a + of_nat SPM_PAGESIZE, 0,
       tr @ map (\<lambda>k. Page_fill (a + 2 * of_nat k) 0xcfff) [0..<SPM_PAGESIZE div 2])"
  using fill_loop_even [of 128 a tr] by (simp add: SPM_PAGESIZE_def)

lemma process_page_eq:
  "process_page s =
     Some (s\<lparr>trace := trace s @ page_events (address s), msgLength := 2,
             address := advance (address s)\<rparr>)"
  by (simp add: process_page_def fill_loop_page page_events_def advance_def Let_def)

lemma collect_continue:
  "msgParseState s \<noteq> ST_PROCESS \<Longrightarrow> isLeave s = 0 \<Longrightarrow> isTimeout s = 0 \<Longrightarrow>
     collect ms s = collect ms (collect_step ms s)"
  by (subst collect.simps) simp

lemma collect_stop:
  "msgParseState s = ST_PROCESS \<or> isLeave s \<noteq> 0 \<or> isTimeout s \<noteq> 0 \<Longrightarrow> collect ms s = s"
  by (subst collect.simps) auto

lemma collect_step_frame:
  "address (collect_step ms s) = address s"
  "trace (collect_step ms s) = trace s"
  "isLeave (collect_step ms s) = isLeave s"
  "GPIOR0 (collect_step ms s) = GPIOR0 s"
  "MCUSR (collect_step ms s) = MCUSR s"
  "WDTCSR (collect_step ms s) = WDTCSR s"
  by (simp_all add: collect_step_def Let_def split: prod.splits parse_state.splits)

lemma collect_frame:
  "address (collect ms s) = address s \<and> trace (collect ms s) = trace s
   \<and> isLeave (collect ms s) = isLeave s \<and> GPIOR0 (collect ms s) = GPIOR0 s
   \<and> MCUSR (collect ms s) = MCUSR s \<and> WDTCSR (collect ms s) = WDTCSR s"
proof (induction ms s rule: collect.induct)
  case (1 ms s)
  show ?case
  proof (cases "msgParseState s \<noteq> ST_PROCESS \<and> isLeave s = 0 \<and> isTimeout s = 0")
    case True
    then have "collect ms s = collect ms (collect_step ms s)"
      by (simp add: collect_continue)
    with "1" [OF True] show ?thesis
      by (simp add: collect_step_frame)
  next
    case False
    then have "collect ms s = s"
      by (intro collect_stop) auto
    then show ?thesis by simp
  qed
qed

lemma main_body_eq:
  "main_body ms s =
     Some ((collect ms (s\<lparr>msgParseState := ST_START\<rparr>))
             \<lparr>trace := trace s @ page_events (address s), msgLength := 2,
              address := advance (address s)\<rparr>)"
  using collect_frame [of ms "s\<lparr>msgParseState := ST_START\<rparr>"]
  by (simp add: main_body_def process_page_eq)

lemma main_loop_continue:
  "isLeave s = 0 \<Longrightarrow> isTimeout s = 0 \<Longrightarrow>
     main_loop ms s = main_loop ms (the (main_body ms s))"
  by (subst main_loop.simps) (simp add: main_body_eq)

lemma main_loop_stop:
  "isLeave s \<noteq> 0 \<or> isTimeout s \<noteq> 0 \<Longrightarrow> main_loop ms s = Some s"
  by (subst main_loop.simps) auto

section \<open>Facts about the address\<close>

lemma consts_unat:
  "unat APP_END = 0x3E000" "unat ((FLASHEND + 1) div 2 :: 32 word) = 0x20000"
  "unat (APP_END + 1) = 0x3E001"
  by (simp_all add: APP_END_def FLASHEND_def BOOTSIZE_def)

lemma cursor_inv_init: "cursor_inv ((FLASHEND + 1) div 2)"
  by (simp add: cursor_inv_def consts_unat SPM_PAGESIZE_def)

lemma unat_add_small:
  fixes a :: "32 word"
  assumes "unat a + n < 2 ^ 32"
  shows "unat (a + of_nat n) = unat a + n"
proof -
  have n: "unat (of_nat n :: 32 word) = n"
    using assms by (simp add: unat_of_nat)
  then have "unat a + unat (of_nat n :: 32 word) < 2 ^ LENGTH(32)"
    using assms by simp
  then have "unat (a + of_nat n) = unat a + unat (of_nat n :: 32 word)"
    by (simp only: unat_add_lem [THEN iffD1])
  with n show ?thesis by simp
qed

lemma advance_unat:
  assumes "cursor_inv a"
  shows "unat (advance a) = (if unat a + 2 * SPM_PAGESIZE > unat APP_END then 0x20000
                             else unat a + SPM_PAGESIZE)"
proof -
  from assms have b: "unat a + 256 \<le> 0x3E000" and d: "256 dvd unat a"
    by (simp_all add: cursor_inv_def consts_unat SPM_PAGESIZE_def)
  have 1: "unat (a + of_nat SPM_PAGESIZE) = unat a + 256"
    using unat_add_small [of a 256] b by (simp add: SPM_PAGESIZE_def)
  have 2: "unat (a + of_nat SPM_PAGESIZE + of_nat SPM_PAGESIZE) = unat a + 512"
    using unat_add_small [of "a + of_nat SPM_PAGESIZE" 256] b 1 by (simp add: SPM_PAGESIZE_def)
  have 3: "unat a + 512 > 0x3E001 \<longleftrightarrow> unat a + 512 > 0x3E000"
    using d by presburger
  show ?thesis
    using 1 2 3 by (simp add: advance_def word_less_nat_alt consts_unat SPM_PAGESIZE_def)
qed

lemma advance_inv: "cursor_inv a \<Longrightarrow> cursor_inv (advance a)"
proof -
  assume a: "cursor_inv a"
  then have b: "unat a + 256 \<le> 0x3E000" and d: "256 dvd unat a" and l: "0x20000 \<le> unat a"
    by (simp_all add: cursor_inv_def consts_unat SPM_PAGESIZE_def)
  show ?thesis
    unfolding cursor_inv_def advance_unat [OF a]
    using b d l by (auto simp: consts_unat SPM_PAGESIZE_def)
qed

section \<open>Facts about the main loop\<close>

lemma startup_eq:
  "startup s = s\<lparr>GPIOR0 := MCUSR s, MCUSR := 0, WDTCSR := 0,
     trace := trace s @ [Store_GPIOR0 (MCUSR s), Cli, Wdr, Store_MCUSR 0,
       Store_WDTCSR (WDTCSR s OR (BV WDCE OR BV WDE)), Store_WDTCSR 0, Sei]\<rparr>"
  by (simp add: startup_def Let_def)

lemma main_loop_shape:
  "cursor_inv (address s) \<Longrightarrow>
   \<exists>s' as. main_loop ms s = Some s'
     \<and> trace s' = trace s @ concat (map page_events as)
     \<and> list_all cursor_inv as \<and> cursor_inv (address s')
     \<and> GPIOR0 s' = GPIOR0 s \<and> MCUSR s' = MCUSR s \<and> WDTCSR s' = WDTCSR s
     \<and> isLeave s' = isLeave s"
proof (induction ms s rule: main_loop.induct)
  case (1 ms s)
  show ?case
  proof (cases "isLeave s = 0 \<and> isTimeout s = 0")
    case False
    then have "main_loop ms s = Some s"
      by (intro main_loop_stop) auto
    with "1.prems" show ?thesis
      by (intro exI [of _ s] exI [of _ "[]"]) simp
  next
    case True
    define s1 where "s1 = (collect ms (s\<lparr>msgParseState := ST_START\<rparr>))
             \<lparr>trace := trace s @ page_events (address s), msgLength := 2,
              address := advance (address s)\<rparr>"
    have b: "main_body ms s = Some s1"
      by (simp add: main_body_eq s1_def)
    have f: "address s1 = advance (address s)" "trace s1 = trace s @ page_events (address s)"
      "GPIOR0 s1 = GPIOR0 s" "MCUSR s1 = MCUSR s" "WDTCSR s1 = WDTCSR s" "isLeave s1 = isLeave s"
      using collect_frame [of ms "s\<lparr>msgParseState := ST_START\<rparr>"] by (simp_all add: s1_def)
    have "cursor_inv (address s1)"
      using "1.prems" by (simp add: f advance_inv)
    from "1.IH" [OF True b this] obtain s' as where
      r: "main_loop ms s1 = Some s'" "trace s' = trace s1 @ concat (map page_events as)"
        "list_all cursor_inv as" "cursor_inv (address s')"
        "GPIOR0 s' = GPIOR0 s1" "MCUSR s' = MCUSR s1" "WDTCSR s' = WDTCSR s1"
        "isLeave s' = isLeave s1"
      by blast
    have "main_loop ms s = Some s'"
      using True b r(1) by (simp add: main_loop_continue)
    with r f "1.prems" show ?thesis
      by (intro exI [of _ s'] exI [of _ "address s # as"]) simp
  qed
qed

lemma main_for_shape:
  "cursor_inv (address s) \<Longrightarrow>
   \<exists>s' as. main_for n ms s = Some s'
     \<and> trace s' = trace s @ concat (map page_events as)
     \<and> list_all cursor_inv as \<and> cursor_inv (address s')
     \<and> GPIOR0 s' = GPIOR0 s \<and> MCUSR s' = MCUSR s \<and> WDTCSR s' = WDTCSR s"
proof (induction n arbitrary: s)
  case 0
  then show ?case
    by (intro exI [of _ s] exI [of _ "[]"]) simp
next
  case (Suc n)
  from main_loop_shape [OF Suc.prems, of ms] obtain s1 as1 where
    a: "main_loop ms s = Some s1" "trace s1 = trace s @ concat (map page_events as1)"
      "list_all cursor_inv as1" "cursor_inv (address s1)"
      "GPIOR0 s1 = GPIOR0 s" "MCUSR s1 = MCUSR s" "WDTCSR s1 = WDTCSR s"
    by blast
  from Suc.IH [OF a(4)] obtain s' as where
    b: "main_for n ms s1 = Some s'" "trace s' = trace s1 @ concat (map page_events as)"
      "list_all cursor_inv as" "cursor_inv (address s')"
      "GPIOR0 s' = GPIOR0 s1" "MCUSR s' = MCUSR s1" "WDTCSR s' = WDTCSR s1"
    by blast
  from a b show ?case
    by (intro exI [of _ s'] exI [of _ "as1 @ as"]) simp
qed

lemma main_shape:
  "\<exists>s' as. main n ms s = Some s'
     \<and> trace s' = startup_events (MCUSR s) (WDTCSR s) @ concat (map page_events as)
     \<and> list_all cursor_inv as \<and> cursor_inv (address s')
     \<and> GPIOR0 s' = MCUSR s \<and> MCUSR s' = 0 \<and> WDTCSR s' = 0"
proof -
  define s3 where "s3 = (let s1 = s\<lparr>address := (FLASHEND + 1) div 2, ii := 0, msgLength := 0,
                 isLeave := 0, isTimeout := 0, trace := []\<rparr>;
          s2 = startup s1 in s2\<lparr>trace := trace s2 @ [Uart_init, Nop]\<rparr>)"
  have m: "main n ms s = main_for n ms s3"
    by (simp add: main_def s3_def Let_def)
  have f: "address s3 = (FLASHEND + 1) div 2" "trace s3 = startup_events (MCUSR s) (WDTCSR s)"
    "GPIOR0 s3 = MCUSR s" "MCUSR s3 = 0" "WDTCSR s3 = 0"
    by (simp_all add: s3_def startup_eq startup_events_def Let_def)
  have "cursor_inv (address s3)"
    by (simp add: f cursor_inv_init)
  from main_for_shape [OF this, of n ms] show ?thesis
    unfolding m f by blast
qed

lemma page_events_bounds:
  assumes "cursor_inv a"
  shows "list_all within_bound (page_events a)" and "list_all below_boot (page_events a)"
proof -
  from assms have b: "unat a + 256 \<le> 0x3E000"
    by (simp add: cursor_inv_def consts_unat SPM_PAGESIZE_def)
  have w: "unat (a + 2 * of_nat k) + 2 \<le> 0x3E000" if "k < 128" for k
  proof -
    have "unat (a + of_nat (2 * k)) = unat a + 2 * k"
      using b that by (intro unat_add_small) simp
    then show ?thesis using b that by simp
  qed
  show "list_all within_bound (page_events a)"
    using b by (simp add: page_events_def list_all_iff consts_unat SPM_PAGESIZE_def)
  show "list_all below_boot (page_events a)"
    using b w by (simp add: page_events_def list_all_iff consts_unat SPM_PAGESIZE_def)
qed

lemma pages_bounds:
  "list_all cursor_inv as \<Longrightarrow>
     list_all within_bound (concat (map page_events as))
     \<and> list_all below_boot (concat (map page_events as))"
  by (induction as) (simp_all add: page_events_bounds)

lemma startup_events_bounds:
  "list_all within_bound (startup_events m w)" "list_all below_boot (startup_events m w)"
  by (simp_all add: startup_events_def)


section \<open>Facts about the length bytes\<close>

lemma unat_ucast_8_16: "unat (ucast (b :: 8 word) :: 16 word) = unat b"
proof -
  have "unat b < 2 ^ 8" using unsigned_less [of b] by simp
  then have "unat b < 2 ^ 16" by simp
  then show ?thesis
    by (simp add: unsigned_ucast_eq take_bit_nat_eq_self)
qed

lemma unat_push_ucast: "unat (push_bit 8 (ucast (b :: 8 word)) :: 16 word) = 256 * unat b"
proof -
  have "unat b < 2 ^ 8" using unsigned_less [of b] by simp
  then have "unat (ucast b :: 16 word) * unat (256 :: 16 word) < 2 ^ LENGTH(16)"
    by (simp add: unat_ucast_8_16)
  then have "unat ((ucast b :: 16 word) * 256) = unat (ucast b :: 16 word) * unat (256 :: 16 word)"
    by (simp only: unat_mult_lem [THEN iffD1])
  then show ?thesis
    by (simp add: push_bit_eq_mult unat_ucast_8_16)
qed

lemma length_zero_iff:
  "(push_bit 8 (ucast (h :: 8 word)) OR ucast (l :: 8 word) :: 16 word) = 0 \<longleftrightarrow> h = 0 \<and> l = 0"
proof -
  have "(ucast l :: 16 word) = 0 \<longleftrightarrow> l = 0"
    using unat_ucast_8_16 [of l] by (simp add: word_unat_eq_iff)
  moreover have "(push_bit 8 (ucast h) :: 16 word) = 0 \<longleftrightarrow> h = 0"
    using unat_push_ucast [of h] by (simp add: word_unat_eq_iff)
  ultimately show ?thesis
    by (simp add: or_eq_0_iff)
qed

section \<open>Facts about the collection of bytes\<close>

lemma line_append [simp]: "line (xs @ ys) = line xs @ line ys"
  by (induction xs) auto

lemma in_time_simps [simp]:
  "in_time []"
  "in_time ((d, b) # xs) \<longleftrightarrow> d \<le> unat MAX_TIME_COUNT \<and> in_time xs"
  "in_time (xs @ ys) \<longleftrightarrow> in_time xs \<and> in_time ys"
  by (simp_all add: in_time_def)

lemma recchar_timeout_delayed:
  assumes "d \<le> unat MAX_TIME_COUNT"
  shows "recchar_timeout (replicate d None @ Some b # u) t = (b, u, t)"
proof -
  have "takeWhile (\<lambda>p. p = None) (replicate d None @ Some b # u) = replicate d None"
    by (induction d) simp_all
  then have k: "length (takeWhile (\<lambda>p. p = None) (replicate d None @ Some b # u)) = d"
    by simp
  show ?thesis
    using assms by (simp add: recchar_timeout_eq k Let_def nth_append)
qed

lemma collect_step_byte:
  "uart s = replicate d None @ Some b # u \<Longrightarrow> d \<le> unat MAX_TIME_COUNT \<Longrightarrow>
   collect_step ms s =
     (let s1 = s\<lparr>c := b, uart := u\<rparr> in
      case msgParseState s of
        ST_START \<Rightarrow> if b = ms then s1\<lparr>msgParseState := ST_MSG_SIZE_1\<rparr> else s1
      | ST_MSG_SIZE_1 \<Rightarrow>
          s1\<lparr>msgLength := push_bit 8 (ucast b), msgParseState := ST_MSG_SIZE_2\<rparr>
      | ST_MSG_SIZE_2 \<Rightarrow>
          s1\<lparr>msgLength := msgLength s OR ucast b, msgParseState := ST_GET_DATA, ii := 0\<rparr>
      | ST_GET_DATA \<Rightarrow> if ii s = msgLength s then s1\<lparr>msgParseState := ST_PROCESS\<rparr> else s1
      | _ \<Rightarrow> s1)"
  by (simp add: collect_step_def recchar_timeout_delayed Let_def split: parse_state.splits)

lemma collect_step_silent:
  "uart s = [] \<Longrightarrow>
   collect_step ms s =
     (let s1 = s\<lparr>c := 0, uart := [], isTimeout := 1\<rparr> in
      case msgParseState s of
        ST_START \<Rightarrow> if 0 = ms then s1\<lparr>msgParseState := ST_MSG_SIZE_1\<rparr> else s1
      | ST_MSG_SIZE_1 \<Rightarrow>
          s1\<lparr>msgLength := 0, msgParseState := ST_MSG_SIZE_2\<rparr>
      | ST_MSG_SIZE_2 \<Rightarrow>
          s1\<lparr>msgLength := msgLength s, msgParseState := ST_GET_DATA, ii := 0\<rparr>
      | ST_GET_DATA \<Rightarrow> if ii s = msgLength s then s1\<lparr>msgParseState := ST_PROCESS\<rparr> else s1
      | _ \<Rightarrow> s1)"
  by (simp add: collect_step_def Let_def split: parse_state.splits)

lemma collect_silent:
  assumes "uart s = []" "msgParseState s \<noteq> ST_PROCESS" "isLeave s = 0" "isTimeout s = 0"
  shows "collect ms s = collect_step ms s" and "isTimeout (collect_step ms s) = 1"
    and "uart (collect_step ms s) = []"
proof -
  show t: "isTimeout (collect_step ms s) = 1" and "uart (collect_step ms s) = []"
    using assms(1) by (simp_all add: collect_step_silent Let_def split: parse_state.splits)
  have "collect ms s = collect ms (collect_step ms s)"
    using assms by (simp add: collect_continue)
  also have "\<dots> = collect_step ms s"
    using t by (intro collect_stop) simp
  finally show "collect ms s = collect_step ms s" .
qed

text \<open>Bytes before the start marker are dropped.\<close>

lemma collect_skip:
  "msgParseState s = ST_START \<Longrightarrow> isLeave s = 0 \<Longrightarrow> isTimeout s = 0 \<Longrightarrow>
   uart s = line pre @ u \<Longrightarrow> in_time pre \<Longrightarrow> ms \<notin> set (map snd pre) \<Longrightarrow>
   \<exists>x. collect ms s = collect ms (s\<lparr>c := x, uart := u\<rparr>)"
proof (induction pre arbitrary: s)
  case Nil
  then have "s\<lparr>c := c s, uart := u\<rparr> = s" by simp
  then show ?case by metis
next
  case (Cons p pre)
  obtain d b where p: "p = (d, b)" by (cases p)
  let ?s1 = "s\<lparr>c := b, uart := line pre @ u\<rparr>"
  have "b \<noteq> ms" and d: "d \<le> unat MAX_TIME_COUNT" using Cons.prems p by auto
  then have st: "collect_step ms s = ?s1"
    using Cons.prems p
    by (simp add: collect_step_byte [where s = s and d = d and b = b and u = "line pre @ u"]
        Let_def)
  have "collect ms s = collect ms ?s1"
    using Cons.prems st by (simp add: collect_continue)
  moreover from Cons.IH [of ?s1] Cons.prems p
  obtain x where "collect ms ?s1 = collect ms (?s1\<lparr>c := x, uart := u\<rparr>)"
    by auto
  ultimately show ?case
    by (intro exI [of _ x]) simp
qed

text \<open>The start marker alone, with one byte after it, with two bytes after it.\<close>

lemma collect_marker:
  assumes "msgParseState s = ST_START" "isLeave s = 0" "isTimeout s = 0"
    and "uart s = line (pre @ [(d0, ms)]) @ u" "in_time (pre @ [(d0, ms)])"
    and "ms \<notin> set (map snd pre)"
  shows "collect ms s = collect ms (s\<lparr>c := ms, uart := u, msgParseState := ST_MSG_SIZE_1\<rparr>)"
proof -
  from collect_skip [where s = s and ms = ms and pre = pre and u = "line [(d0, ms)] @ u"] assms
  obtain x where 0: "collect ms s = collect ms (s\<lparr>c := x, uart := line [(d0, ms)] @ u\<rparr>)"
    by auto
  let ?s0 = "s\<lparr>c := x, uart := line [(d0, ms)] @ u\<rparr>"
  have "collect ms ?s0 = collect ms (collect_step ms ?s0)"
    using assms by (intro collect_continue) simp_all
  moreover have "collect_step ms ?s0 = s\<lparr>c := ms, uart := u, msgParseState := ST_MSG_SIZE_1\<rparr>"
    using assms
    by (subst collect_step_byte [where d = d0 and b = ms and u = u]) (simp_all add: Let_def)
  ultimately show ?thesis using 0 by simp
qed

lemma collect_marker_high:
  assumes "msgParseState s = ST_START" "isLeave s = 0" "isTimeout s = 0"
    and "uart s = line (pre @ [(d0, ms), (d1, h)]) @ u" "in_time (pre @ [(d0, ms), (d1, h)])"
    and "ms \<notin> set (map snd pre)"
  shows "collect ms s =
    collect ms (s\<lparr>c := h, uart := u, msgLength := push_bit 8 (ucast h),
                  msgParseState := ST_MSG_SIZE_2\<rparr>)"
proof -
  let ?s1 = "s\<lparr>c := ms, uart := line [(d1, h)] @ u, msgParseState := ST_MSG_SIZE_1\<rparr>"
  have "collect ms s = collect ms ?s1"
    using assms
    by (intro collect_marker [where pre = pre and ?d0.0 = d0]) simp_all
  also have "\<dots> = collect ms (collect_step ms ?s1)"
    using assms by (intro collect_continue) simp_all
  also have "collect_step ms ?s1 = s\<lparr>c := h, uart := u, msgLength := push_bit 8 (ucast h),
                  msgParseState := ST_MSG_SIZE_2\<rparr>"
    using assms
    by (subst collect_step_byte [where d = d1 and b = h and u = u]) (simp_all add: Let_def)
  finally show ?thesis .
qed

lemma collect_header:
  assumes "msgParseState s = ST_START" "isLeave s = 0" "isTimeout s = 0"
    and "uart s = line (pre @ [(d0, ms), (d1, h), (d2, l)]) @ u"
    and "in_time (pre @ [(d0, ms), (d1, h), (d2, l)])" "ms \<notin> set (map snd pre)"
  shows "collect ms s =
     collect ms (s\<lparr>c := l, uart := u, msgLength := push_bit 8 (ucast h) OR ucast l,
                   msgParseState := ST_GET_DATA, ii := 0\<rparr>)"
proof -
  let ?s2 = "s\<lparr>c := h, uart := line [(d2, l)] @ u, msgLength := push_bit 8 (ucast h),
                  msgParseState := ST_MSG_SIZE_2\<rparr>"
  have "collect ms s = collect ms ?s2"
    using assms
    by (intro collect_marker_high [where pre = pre and ?d0.0 = d0 and ?d1.0 = d1]) simp_all
  also have "\<dots> = collect ms (collect_step ms ?s2)"
    using assms by (intro collect_continue) simp_all
  also have "collect_step ms ?s2 =
      s\<lparr>c := l, uart := u, msgLength := push_bit 8 (ucast h) OR ucast l,
        msgParseState := ST_GET_DATA, ii := 0\<rparr>"
    using assms
    by (subst collect_step_byte [where d = d2 and b = l and u = u]) (simp_all add: Let_def)
  finally show ?thesis .
qed

text \<open>In \<^verbatim>\<open>ST_GET_DATA\<close>: stuck when the length is not 0, one more read when it is.\<close>

lemma collect_data_stuck:
  "msgParseState s = ST_GET_DATA \<Longrightarrow> ii s \<noteq> msgLength s \<Longrightarrow> isLeave s = 0 \<Longrightarrow>
   isTimeout s = 0 \<Longrightarrow> uart s = line xs \<Longrightarrow> in_time xs \<Longrightarrow>
   collect ms s = s\<lparr>c := 0, uart := [], isTimeout := 1\<rparr>"
proof (induction xs arbitrary: s)
  case Nil
  then have "collect ms s = collect_step ms s"
    by (intro collect_silent) simp_all
  with Nil show ?case
    by (simp add: collect_step_silent Let_def)
next
  case (Cons p xs)
  obtain d b where p: "p = (d, b)" by (cases p)
  let ?s1 = "s\<lparr>c := b, uart := line xs\<rparr>"
  have st: "collect_step ms s = ?s1"
    using Cons.prems p
    by (simp add: collect_step_byte [where s = s and d = d and b = b and u = "line xs"] Let_def)
  have "collect ms s = collect ms ?s1"
    using Cons.prems st by (simp add: collect_continue)
  also have "\<dots> = ?s1\<lparr>c := 0, uart := [], isTimeout := 1\<rparr>"
    using Cons.prems p by (intro Cons.IH) simp_all
  finally show ?case by simp
qed

lemma collect_data_byte:
  assumes "msgParseState s = ST_GET_DATA" "ii s = msgLength s" "isLeave s = 0"
    "isTimeout s = 0" "uart s = line [(d, x)] @ u" "d \<le> unat MAX_TIME_COUNT"
  shows "collect ms s = s\<lparr>c := x, uart := u, msgParseState := ST_PROCESS\<rparr>"
proof -
  have st: "collect_step ms s = s\<lparr>c := x, uart := u, msgParseState := ST_PROCESS\<rparr>"
    using assms by (simp add: collect_step_byte [where s = s and d = d and b = x and u = u] Let_def)
  have "collect ms s = collect ms (collect_step ms s)"
    using assms by (simp add: collect_continue)
  also have "\<dots> = collect_step ms s"
    by (intro collect_stop) (simp add: st)
  finally show ?thesis by (simp add: st)
qed

lemma collect_data_silent:
  assumes "msgParseState s = ST_GET_DATA" "ii s = msgLength s" "isLeave s = 0"
    "isTimeout s = 0" "uart s = []"
  shows "collect ms s = s\<lparr>c := 0, uart := [], isTimeout := 1, msgParseState := ST_PROCESS\<rparr>"
proof -
  have "collect ms s = collect_step ms s"
    using assms by (intro collect_silent) simp_all
  with assms show ?thesis
    by (simp add: collect_step_silent Let_def)
qed

text \<open>Lines that end before the two length bytes are in.\<close>

lemma collect_no_marker:
  assumes "msgParseState s = ST_START" "isLeave s = 0" "isTimeout s = 0"
    and "uart s = line xs" "in_time xs" "ms \<notin> set (map snd xs)"
  shows "msgParseState (collect ms s) \<noteq> ST_PROCESS" and "isTimeout (collect ms s) = 1"
proof -
  from collect_skip [where s = s and ms = ms and pre = xs and u = "[]"] assms
  obtain x where 0: "collect ms s = collect ms (s\<lparr>c := x, uart := []\<rparr>)"
    by auto
  let ?s0 = "s\<lparr>c := x, uart := []\<rparr>"
  have 1: "collect ms ?s0 = collect_step ms ?s0"
    using assms by (intro collect_silent) simp_all
  show "msgParseState (collect ms s) \<noteq> ST_PROCESS" "isTimeout (collect ms s) = 1"
    using assms by (simp_all add: 0 1 collect_step_silent Let_def)
qed

lemma collect_marker_only:
  assumes "msgParseState s = ST_START" "isLeave s = 0" "isTimeout s = 0"
    and "uart s = line (pre @ [(d0, ms)])" "in_time (pre @ [(d0, ms)])"
    and "ms \<notin> set (map snd pre)"
  shows "msgParseState (collect ms s) \<noteq> ST_PROCESS" and "isTimeout (collect ms s) = 1"
proof -
  let ?s1 = "s\<lparr>c := ms, uart := [], msgParseState := ST_MSG_SIZE_1\<rparr>"
  have 1: "collect ms s = collect ms ?s1"
    using assms by (intro collect_marker [where pre = pre and ?d0.0 = d0]) simp_all
  have 2: "collect ms ?s1 = collect_step ms ?s1"
    using assms by (intro collect_silent) simp_all
  show "msgParseState (collect ms s) \<noteq> ST_PROCESS" "isTimeout (collect ms s) = 1"
    using assms by (simp_all add: 1 2 collect_step_silent Let_def)
qed

lemma collect_marker_one:
  assumes "msgParseState s = ST_START" "isLeave s = 0" "isTimeout s = 0"
    and "uart s = line (pre @ [(d0, ms), (d1, h)])" "in_time (pre @ [(d0, ms), (d1, h)])"
    and "ms \<notin> set (map snd pre)"
  shows "msgParseState (collect ms s) \<noteq> ST_PROCESS" and "isTimeout (collect ms s) = 1"
proof -
  let ?s2 = "s\<lparr>c := h, uart := [], msgLength := push_bit 8 (ucast h),
                msgParseState := ST_MSG_SIZE_2\<rparr>"
  have 1: "collect ms s = collect ms ?s2"
    using assms
    by (intro collect_marker_high [where pre = pre and ?d0.0 = d0 and ?d1.0 = d1]) simp_all
  have 2: "collect ms ?s2 = collect_step ms ?s2"
    using assms by (intro collect_silent) simp_all
  show "msgParseState (collect ms s) \<noteq> ST_PROCESS" "isTimeout (collect ms s) = 1"
    using assms by (simp_all add: 1 2 collect_step_silent Let_def)
qed

text \<open>After the marker and two length bytes: the three ways the collection ends.\<close>

lemma collect_length_nonzero:
  assumes "msgParseState s = ST_START" "isLeave s = 0" "isTimeout s = 0"
    and "uart s = line (pre @ (d0, ms) # (d1, h) # (d2, l) # rest)"
    and "in_time (pre @ (d0, ms) # (d1, h) # (d2, l) # rest)"
    and "ms \<notin> set (map snd pre)" "h \<noteq> 0 \<or> l \<noteq> 0"
  shows "collect ms s =
     s\<lparr>c := 0, uart := [], isTimeout := 1,
       msgLength := push_bit 8 (ucast h) OR ucast l, msgParseState := ST_GET_DATA, ii := 0\<rparr>"
proof -
  let ?s3 = "s\<lparr>c := l, uart := line rest, msgLength := push_bit 8 (ucast h) OR ucast l,
                msgParseState := ST_GET_DATA, ii := 0\<rparr>"
  have "collect ms s = collect ms ?s3"
    using assms
    by (intro collect_header [where pre = pre and ?d0.0 = d0 and ?d1.0 = d1 and ?d2.0 = d2])
       simp_all
  also have "\<dots> = ?s3\<lparr>c := 0, uart := [], isTimeout := 1\<rparr>"
  proof (rule collect_data_stuck [where xs = rest])
    show "ii ?s3 \<noteq> msgLength ?s3"
      using assms(7) length_zero_iff [of h l] by auto
  qed (use assms in simp_all)
  finally show ?thesis by simp
qed

lemma collect_length_zero_byte:
  assumes "msgParseState s = ST_START" "isLeave s = 0" "isTimeout s = 0"
    and "uart s = line (pre @ (d0, ms) # (d1, 0) # (d2, 0) # (d3, x) # rest)"
    and "in_time (pre @ (d0, ms) # (d1, 0) # (d2, 0) # (d3, x) # rest)"
    and "ms \<notin> set (map snd pre)"
  shows "collect ms s =
     s\<lparr>c := x, uart := line rest, msgLength := 0, msgParseState := ST_PROCESS, ii := 0\<rparr>"
proof -
  let ?s3 = "s\<lparr>c := 0, uart := line [(d3, x)] @ line rest,
                msgLength := push_bit 8 (ucast (0 :: 8 word)) OR ucast (0 :: 8 word),
                msgParseState := ST_GET_DATA, ii := 0\<rparr>"
  have "collect ms s = collect ms ?s3"
    using assms
    by (intro collect_header [where pre = pre and ?d0.0 = d0 and ?d1.0 = d1 and ?d2.0 = d2])
       simp_all
  also have "\<dots> = ?s3\<lparr>c := x, uart := line rest, msgParseState := ST_PROCESS\<rparr>"
    by (rule collect_data_byte [where d = d3]) (use assms in simp_all)
  finally show ?thesis by simp
qed

lemma collect_length_zero_silent:
  assumes "msgParseState s = ST_START" "isLeave s = 0" "isTimeout s = 0"
    and "uart s = line (pre @ [(d0, ms), (d1, 0), (d2, 0)])"
    and "in_time (pre @ [(d0, ms), (d1, 0), (d2, 0)])"
    and "ms \<notin> set (map snd pre)"
  shows "collect ms s =
     s\<lparr>c := 0, uart := [], isTimeout := 1, msgLength := 0, msgParseState := ST_PROCESS,
       ii := 0\<rparr>"
proof -
  let ?s3 = "s\<lparr>c := 0, uart := [],
                msgLength := push_bit 8 (ucast (0 :: 8 word)) OR ucast (0 :: 8 word),
                msgParseState := ST_GET_DATA, ii := 0\<rparr>"
  have "collect ms s = collect ms ?s3"
    using assms
    by (intro collect_header [where pre = pre and ?d0.0 = d0 and ?d1.0 = d1 and ?d2.0 = d2])
       simp_all
  also have "\<dots> = ?s3\<lparr>c := 0, uart := [], isTimeout := 1, msgParseState := ST_PROCESS\<rparr>"
    by (rule collect_data_silent) (use assms in simp_all)
  finally show ?thesis by simp
qed

lemma first_marker_unique:
  "ms \<notin> set p1 \<Longrightarrow> ms \<notin> set p2 \<Longrightarrow> p1 @ ms # r1 = p2 @ ms # r2 \<Longrightarrow> p1 = p2 \<and> r1 = r2"
proof (induction p1 arbitrary: p2)
  case Nil
  then show ?case by (cases p2) auto
next
  case (Cons a p1)
  then show ?case by (cases p2) auto
qed

lemma split_at_first_marker:
  assumes "ms \<in> set (map snd xs)"
  obtains pre d0 tl where "xs = pre @ (d0, ms) # tl" "ms \<notin> set (map snd pre)"
proof -
  from split_list_first [OF assms] obtain p t where
    m: "map snd xs = p @ ms # t" "ms \<notin> set p"
    by blast
  from m(1) obtain pre r where 1: "xs = pre @ r" "map snd pre = p" "map snd r = ms # t"
    by (auto simp: map_eq_append_conv)
  from 1(3) obtain z tl where 2: "r = z # tl" "snd z = ms"
    by (auto simp: map_eq_Cons_conv)
  then have "z = (fst z, ms)" by (cases z) simp
  with 1 2 m(2) that [of pre "fst z" tl] show thesis
    by simp
qed

section \<open>Facts for the concrete runs\<close>



lemma collect_step_read:
  "(let u = uart s; k = length (takeWhile (\<lambda>p. p = None) u) in
    if k < length u \<and> k \<le> unat MAX_TIME_COUNT
    then c (collect_step ms s) = the (u ! k) \<and> uart (collect_step ms s) = drop (Suc k) u
         \<and> isTimeout (collect_step ms s) = isTimeout s
    else c (collect_step ms s) = 0 \<and> uart (collect_step ms s) = drop (unat MAX_TIME_COUNT + 1) u
         \<and> isTimeout (collect_step ms s) = 1)"
  by (simp add: collect_step_def recchar_timeout_eq Let_def split: parse_state.splits)

lemma main_for_stopped: "isTimeout s \<noteq> 0 \<Longrightarrow> main_for n ms s = Some s"
  by (induction n) (simp_all add: main_loop_stop)

lemma main_loop_turn:
  "isLeave s = 0 \<Longrightarrow> isTimeout s = 0 \<Longrightarrow>
   main_loop ms s =
     main_loop ms ((collect ms (s\<lparr>msgParseState := ST_START\<rparr>))
             \<lparr>trace := trace s @ page_events (address s), msgLength := 2,
              address := advance (address s)\<rparr>)"
  by (simp add: main_loop_continue main_body_eq)

lemma main_entry:
  "main n ms s =
     main_for n ms
       (s\<lparr>address := (FLASHEND + 1) div 2, ii := 0, msgLength := 0, isLeave := 0,
          isTimeout := 0, GPIOR0 := MCUSR s, MCUSR := 0, WDTCSR := 0,
          trace := startup_events (MCUSR s) (WDTCSR s)\<rparr>)"
  by (simp add: main_def startup_eq startup_events_def Let_def)

lemma advance_middle: "advance ((FLASHEND + 1) div 2) = 0x20100"
  by (simp add: advance_def FLASHEND_def APP_END_def BOOTSIZE_def SPM_PAGESIZE_def)

lemma middle: "(FLASHEND + 1) div 2 = 0x20000"
  by (simp add: FLASHEND_def)

lemma no_app_start_in_pages: "App_start \<notin> set (page_events a)"
  "Sendchar b \<notin> set (page_events a)"
  by (auto simp: page_events_def)

lemma no_app_start_in_startup: "App_start \<notin> set (startup_events m w)"
  "Sendchar b \<notin> set (startup_events m w)"
  by (auto simp: startup_events_def)

lemma advance_iterated:
  "k \<le> 479 \<Longrightarrow> cursor_inv ((advance ^^ k) ((FLASHEND + 1) div 2))
     \<and> unat ((advance ^^ k) ((FLASHEND + 1) div 2)) = 0x20000 + 256 * k"
proof (induction k)
  case 0
  then show ?case by (simp add: cursor_inv_init consts_unat)
next
  case (Suc k)
  then have ih: "cursor_inv ((advance ^^ k) ((FLASHEND + 1) div 2))"
    "unat ((advance ^^ k) ((FLASHEND + 1) div 2)) = 0x20000 + 256 * k" and k: "k < 479"
    by simp_all
  from advance_inv [OF ih(1)] advance_unat [OF ih(1)] ih(2) k show ?case
    by (simp add: consts_unat SPM_PAGESIZE_def)
qed

lemma last_page_reached: "(advance ^^ 479) ((FLASHEND + 1) div 2) = 0x3DF00"
  using advance_iterated [of 479] by (simp add: word_unat_eq_iff)


text \<open>
  In \<^verbatim>\<open>ST_GET_DATA\<close> with a length other than 0, on any line at all: the collection ends by
  timeout, in the same state.
\<close>

lemma collect_step_data_stuck:
  assumes "msgParseState s = ST_GET_DATA" "ii s \<noteq> msgLength s"
  shows "msgParseState (collect_step ms s) = ST_GET_DATA"
    and "ii (collect_step ms s) = ii s" and "msgLength (collect_step ms s) = msgLength s"
    and "isTimeout (collect_step ms s) = isTimeout s \<or> isTimeout (collect_step ms s) = 1"
proof -
  show "msgParseState (collect_step ms s) = ST_GET_DATA"
    "ii (collect_step ms s) = ii s" "msgLength (collect_step ms s) = msgLength s"
    using assms by (simp_all add: collect_step_def Let_def split: prod.splits)
  show "isTimeout (collect_step ms s) = isTimeout s \<or> isTimeout (collect_step ms s) = 1"
    using collect_step_read [of s ms] by (auto simp: Let_def split: if_splits)
qed

lemma collect_data_stuck_any:
  "msgParseState s = ST_GET_DATA \<Longrightarrow> ii s \<noteq> msgLength s \<Longrightarrow> isLeave s = 0 \<Longrightarrow>
   isTimeout s = 0 \<or> isTimeout s = 1 \<Longrightarrow>
   msgParseState (collect ms s) = ST_GET_DATA \<and> isTimeout (collect ms s) = 1"
proof (induction ms s rule: collect.induct)
  case (1 ms s)
  show ?case
  proof (cases "isTimeout s = 0")
    case True
    with "1.prems" have go: "msgParseState s \<noteq> ST_PROCESS \<and> isLeave s = 0 \<and> isTimeout s = 0"
      by simp
    then have e: "collect ms s = collect ms (collect_step ms s)"
      by (simp add: collect_continue)
    have "isTimeout (collect_step ms s) = 0 \<or> isTimeout (collect_step ms s) = 1"
      using collect_step_data_stuck(4) [OF "1.prems"(1,2), of ms] True by auto
    with "1.IH" [OF go] collect_step_data_stuck(1-3) [OF "1.prems"(1,2), of ms] "1.prems"
      collect_step_frame(3) [of ms s]
    show ?thesis
      by (simp add: e)
  next
    case False
    with "1.prems" have t: "isTimeout s = 1" by simp
    then have "collect ms s = s"
      by (intro collect_stop) simp
    with "1.prems" t show ?thesis by simp
  qed
qed

lemma collect_data_one_read:
  assumes "msgParseState s = ST_GET_DATA" "ii s = msgLength s" "isLeave s = 0" "isTimeout s = 0"
  shows "collect ms s = collect_step ms s" and "msgParseState (collect_step ms s) = ST_PROCESS"
proof -
  show p: "msgParseState (collect_step ms s) = ST_PROCESS"
    using assms by (simp add: collect_step_def Let_def split: prod.splits)
  have "collect ms s = collect ms (collect_step ms s)"
    using assms by (simp add: collect_continue)
  also have "\<dots> = collect_step ms s"
    using p by (intro collect_stop) simp
  finally show "collect ms s = collect_step ms s" .
qed



text \<open>
  What the collection accepts, on a line whose bytes \<open>map snd xs\<close> each arrive before the
  counter of their read runs out and which then stays silent: it ends in \<^verbatim>\<open>ST_PROCESS\<close>
  if and only if the first start marker among the bytes is followed at once by two bytes
  equal to 0.
\<close>

lemma collect_accepts_iff:
  assumes "msgParseState s = ST_START" "isLeave s = 0" "isTimeout s = 0"
    and "uart s = line xs" "in_time xs"
  shows "msgParseState (collect ms s) = ST_PROCESS
    \<longleftrightarrow> (\<exists>pre rest. map snd xs = pre @ ms # 0 # 0 # rest \<and> ms \<notin> set pre)"
proof (cases "ms \<in> set (map snd xs)")
  case False
  then have "\<not> (\<exists>pre rest. map snd xs = pre @ ms # 0 # 0 # rest \<and> ms \<notin> set pre)"
    by (metis in_set_conv_decomp)
  with collect_no_marker(1) [OF assms False] show ?thesis by simp
next
  case True
  then obtain pre d0 tl where sp: "xs = pre @ (d0, ms) # tl" "ms \<notin> set (map snd pre)"
    by (rule split_at_first_marker)
  have rhs: "(\<exists>pre' rest. map snd xs = pre' @ ms # 0 # 0 # rest \<and> ms \<notin> set pre')
      \<longleftrightarrow> (\<exists>rest. map snd tl = 0 # 0 # rest)"
  proof
    assume "\<exists>pre' rest. map snd xs = pre' @ ms # 0 # 0 # rest \<and> ms \<notin> set pre'"
    then obtain pre' rest where
      e: "map snd xs = pre' @ ms # 0 # 0 # rest" "ms \<notin> set pre'"
      by blast
    from sp have "map snd xs = map snd pre @ ms # map snd tl" by simp
    with e first_marker_unique [of ms "map snd pre" pre' "map snd tl" "0 # 0 # rest"] sp(2)
    show "\<exists>rest. map snd tl = 0 # 0 # rest" by simp
  next
    assume "\<exists>rest. map snd tl = 0 # 0 # rest"
    then obtain rest where "map snd tl = 0 # 0 # rest" ..
    with sp have "map snd xs = map snd pre @ ms # 0 # 0 # rest \<and> ms \<notin> set (map snd pre)"
      by simp
    then show "\<exists>pre' rest. map snd xs = pre' @ ms # 0 # 0 # rest \<and> ms \<notin> set pre'"
      by blast
  qed
  have it: "in_time (pre @ (d0, ms) # tl)" and u: "uart s = line (pre @ (d0, ms) # tl)"
    using assms sp by simp_all
  show ?thesis
  proof (cases tl)
    case Nil
    with collect_marker_only(1) [where s = s and ms = ms and pre = pre and ?d0.0 = d0]
      assms(1-3) u it sp(2) rhs
    show ?thesis by simp
  next
    case (Cons p1 tl1)
    note c1 = this
    obtain d1 h where p1: "p1 = (d1, h)" by (cases p1)
    show ?thesis
    proof (cases tl1)
      case Nil
      with collect_marker_one(1)
        [where s = s and ms = ms and pre = pre and ?d0.0 = d0 and ?d1.0 = d1 and h = h]
        assms(1-3) u it sp(2) rhs c1 p1
      show ?thesis by simp
    next
      case (Cons p2 rest)
      obtain d2 l where p2: "p2 = (d2, l)" by (cases p2)
      have u3: "uart s = line (pre @ (d0, ms) # (d1, h) # (d2, l) # rest)"
        and it3: "in_time (pre @ (d0, ms) # (d1, h) # (d2, l) # rest)"
        using u it c1 p1 Cons p2 by simp_all
      show ?thesis
      proof (cases "h = 0 \<and> l = 0")
        case True
        have "msgParseState (collect ms s) = ST_PROCESS"
        proof (cases rest)
          case Nil
          with collect_length_zero_silent
            [where s = s and ms = ms and pre = pre and ?d0.0 = d0 and ?d1.0 = d1 and ?d2.0 = d2]
            assms(1-3) u3 it3 sp(2) True
          show ?thesis by simp
        next
          case (Cons p3 rest')
          obtain d3 x where p3: "p3 = (d3, x)" by (cases p3)
          with Cons collect_length_zero_byte
            [where s = s and ms = ms and pre = pre and ?d0.0 = d0 and ?d1.0 = d1 and ?d2.0 = d2
              and ?d3.0 = d3 and x = x and rest = rest']
            assms(1-3) u3 it3 sp(2) True
          show ?thesis by simp
        qed
        with rhs c1 p1 Cons p2 True show ?thesis by simp
      next
        case False
        then have "h \<noteq> 0 \<or> l \<noteq> 0" by simp
        from collect_length_nonzero [OF assms(1-3) u3 it3 sp(2) this]
        have "msgParseState (collect ms s) \<noteq> ST_PROCESS" by simp
        with rhs c1 p1 Cons p2 False show ?thesis by auto
      qed
    qed
  qed
qed

section \<open>The claims\<close>

text \<open>
  Claim C1.  One turn of the main loop, whatever the state it starts in, whatever the line
  delivers and whatever the start marker is, ends the collection of bytes and then erases
  the page at \<^verbatim>\<open>address\<close>, fills the whole page buffer with the word \<^verbatim>\<open>0xcfff\<close> and
  writes the page: the events it adds are \<open>page_events\<close> of the address it started with,
  and nothing else.  What was received has no part in them.
\<close>

theorem main_body_unconditional_page_operation:
  "\<exists>s'. main_body ms s = Some s' \<and> trace s' = trace s @ page_events (address s)"
  by (simp add: main_body_eq)

text \<open>
  Claim C2, the code at two lines (start marker \<^verbatim>\<open>0x1B\<close>).  The bytes
  \<^verbatim>\<open>1B 05 00 01 0E 01 10\<close> are a frame of the specification with a correct checksum, and
  the parser does not accept them: it has no state for the sequence number, takes
  \<^verbatim>\<open>05 00\<close> for the length and stays in \<^verbatim>\<open>ST_GET_DATA\<close>, where \<^verbatim>\<open>ii\<close> never reaches the
  length.  The bytes \<^verbatim>\<open>1B 00 00 00 0E 14\<close> are the frame \<^verbatim>\<open>1B 00 00 00 0E 15\<close> with its
  checksum corrupted, no stretch of them is a frame of the specification, and the parser
  accepts them: it has no state for the checksum either.
\<close>

theorem valid_frame_rejected_corrupted_frame_accepted:
  "is_spec_frame 0x1B [0x1B, 5, 0, 1, 0x0E, 1, 0x10]
   \<and> msgParseState (collect 0x1B (reset_state (map Some [0x1B, 5, 0, 1, 0x0E, 1, 0x10])))
       = ST_GET_DATA
   \<and> \<not> has_spec_frame 0x1B [0x1B, 0, 0, 0, 0x0E, 0x14]
   \<and> msgParseState (collect 0x1B (reset_state (map Some [0x1B, 0, 0, 0, 0x0E, 0x14])))
       = ST_PROCESS"
proof (intro conjI)
  show "is_spec_frame 0x1B [0x1B, 5, 0, 1, 0x0E, 1, 0x10]"
    by (simp add: is_spec_frame_def checksum_def)
  show "\<not> has_spec_frame 0x1B [0x1B, 0, 0, 0, 0x0E, 0x14]"
    by (simp add: has_spec_frame_def is_spec_frame_def checksum_def upt_rec)
  show "msgParseState (collect 0x1B (reset_state (map Some [0x1B, 5, 0, 1, 0x0E, 1, 0x10])))
       = ST_GET_DATA"
    using collect_length_nonzero
      [where s = "reset_state (map Some [0x1B, 5, 0, 1, 0x0E, 1, 0x10])" and ms = "0x1B"
        and pre = "[]" and ?d0.0 = 0 and ?d1.0 = 0 and ?d2.0 = 0 and h = 5 and l = 0
        and rest = "map (Pair 0) [1, 0x0E, 1, 0x10]"]
    by (simp add: reset_state_def)
  show "msgParseState (collect 0x1B (reset_state (map Some [0x1B, 0, 0, 0, 0x0E, 0x14])))
       = ST_PROCESS"
    using collect_length_zero_byte
      [where s = "reset_state (map Some [0x1B, 0, 0, 0, 0x0E, 0x14])" and ms = "0x1B"
        and pre = "[]" and ?d0.0 = 0 and ?d1.0 = 0 and ?d2.0 = 0 and ?d3.0 = 0 and x = 0
        and rest = "map (Pair 0) [0x0E, 0x14]"]
    by (simp add: reset_state_def)
qed

text \<open>
  Claim C3, the code at a line that stays silent after reset.  For every number \<open>n + 1\<close>
  of passes of the outer loop the result is the same: the first read times out, the
  timeout flag is set, the page at the middle of the flash is erased, filled and written
  all the same, and the events end there.  No call through \<^verbatim>\<open>app_start\<close> is among them:
  the inner loops are left, and the outer \<^verbatim>\<open>for(;;)\<close> goes round without doing anything.
\<close>

theorem silent_line_no_transfer:
  "\<exists>s'. main (Suc n) ms (s\<lparr>uart := []\<rparr>) = Some s' \<and> isTimeout s' = 1
     \<and> trace s' = startup_events (MCUSR s) (WDTCSR s) @ page_events ((FLASHEND + 1) div 2)
     \<and> App_start \<notin> set (trace s')"
proof -
  define s0 where "s0 = s\<lparr>uart := [], address := (FLASHEND + 1) div 2, ii := 0, msgLength := 0,
      isLeave := 0, isTimeout := 0, GPIOR0 := MCUSR s, MCUSR := 0, WDTCSR := 0,
      trace := startup_events (MCUSR s) (WDTCSR s)\<rparr>"
  define s1 where "s1 = s0\<lparr>msgParseState := ST_START\<rparr>"
  define s2 where "s2 = (collect ms s1)\<lparr>trace := trace s0 @ page_events (address s0),
      msgLength := 2, address := advance (address s0)\<rparr>"
  have m: "main (Suc n) ms (s\<lparr>uart := []\<rparr>) = main_for (Suc n) ms s0"
    by (simp add: main_entry s0_def)
  have c: "collect ms s1 = collect_step ms s1" "isTimeout (collect_step ms s1) = 1"
    by (intro collect_silent; simp add: s1_def s0_def)+
  then have t: "isTimeout s2 = 1"
    by (simp add: s2_def)
  have "main_loop ms s0 = main_loop ms s2"
    unfolding s2_def s1_def by (rule main_loop_turn) (simp_all add: s0_def)
  also have "\<dots> = Some s2"
    using t by (intro main_loop_stop) simp
  finally have "main_for (Suc n) ms s0 = main_for n ms s2"
    by simp
  also have "\<dots> = Some s2"
    using t by (intro main_for_stopped) simp
  finally have "main_for (Suc n) ms s0 = Some s2" .
  then have r: "main (Suc n) ms (s\<lparr>uart := []\<rparr>) = Some s2"
    by (simp only: m)
  have tr: "trace s2 = startup_events (MCUSR s) (WDTCSR s) @ page_events ((FLASHEND + 1) div 2)"
    by (simp add: s2_def s0_def)
  from r t tr show ?thesis
    by (simp add: no_app_start_in_pages no_app_start_in_startup)
qed


text \<open>
  Claim C5, the claim as stated fails at the address \<^verbatim>\<open>0x3DF00\<close>, the last page below
  \<^verbatim>\<open>APP_END\<close>, which the address reaches after 479 turns.  One page further is \<^verbatim>\<open>0x3E000\<close>,
  which is \<^verbatim>\<open>APP_END\<close> and does not exceed it, so the rule of the specification gives
  \<^verbatim>\<open>0x3E000\<close>; the code goes back to the middle of the flash, \<^verbatim>\<open>0x20000\<close>.
\<close>

theorem wraps_one_page_before_boundary:
  "map_option address (process_page ((reset_state [])\<lparr>address := 0x3DF00\<rparr>)) = Some 0x20000
   \<and> spec_next_cursor 0x3DF00 = 0x3E000
   \<and> (advance ^^ 479) ((FLASHEND + 1) div 2) = 0x3DF00"
  by (simp add: process_page_eq last_page_reached)
     (simp add: advance_def spec_next_cursor_def APP_END_def FLASHEND_def BOOTSIZE_def
        SPM_PAGESIZE_def)

text \<open>
  Claim C5, amended.  After a page write the address is the old address plus one page,
  except that it is the middle of the flash when the new address plus one more page would
  exceed \<^verbatim>\<open>APP_END + 1\<close> (32-bit arithmetic, as in lines 526 to 528).  For the addresses
  the main loop works at this means: it goes back to the middle exactly when one page
  further would be \<^verbatim>\<open>APP_END\<close> itself.
\<close>

theorem cursor_advances_or_wraps:
  "\<exists>s'. process_page s = Some s'
     \<and> address s' =
         (if address s + of_nat SPM_PAGESIZE + of_nat SPM_PAGESIZE > APP_END + 1
          then (FLASHEND + 1) div 2 else address s + of_nat SPM_PAGESIZE)
     \<and> (cursor_inv (address s) \<longrightarrow>
          unat (address s') =
            (if unat (address s) + SPM_PAGESIZE = unat APP_END
             then unat ((FLASHEND + 1) div 2 :: 32 word)
             else unat (address s) + SPM_PAGESIZE))"
proof -
  have "unat (advance (address s)) =
            (if unat (address s) + SPM_PAGESIZE = unat APP_END
             then unat ((FLASHEND + 1) div 2 :: 32 word)
             else unat (address s) + SPM_PAGESIZE)" if a: "cursor_inv (address s)"
  proof -
    from a have b: "unat (address s) + 256 \<le> 0x3E000" and d: "256 dvd unat (address s)"
      by (simp_all add: cursor_inv_def consts_unat SPM_PAGESIZE_def)
    then have "unat (address s) + 512 > 0x3E000 \<longleftrightarrow> unat (address s) + 256 = 0x3E000"
      by presburger
    with advance_unat [OF a] show ?thesis
      by (simp add: consts_unat SPM_PAGESIZE_def)
  qed
  then show ?thesis
    by (simp add: process_page_eq) (simp add: advance_def)
qed

text \<open>
  Two runs of the amended claim C5: the last page below \<^verbatim>\<open>APP_END\<close>, and the first page.
\<close>

theorem cursor_advances_or_wraps_witness:
  "map_option address (process_page ((reset_state [])\<lparr>address := 0x3DF00\<rparr>)) = Some 0x20000
   \<and> map_option address (process_page ((reset_state [])\<lparr>address := 0x20000\<rparr>)) = Some 0x20100"
  using cursor_advances_or_wraps [where s = "(reset_state [])\<lparr>address := 0x3DF00\<rparr>"]
    cursor_advances_or_wraps [where s = "(reset_state [])\<lparr>address := 0x20000\<rparr>"]
  by (auto simp: reset_state_def APP_END_def FLASHEND_def BOOTSIZE_def SPM_PAGESIZE_def)

text \<open>
  Claim C6, the code at the line \<^verbatim>\<open>1B 00 00 00 0E 15\<close> (start marker \<^verbatim>\<open>0x1B\<close>): a frame of
  the specification with sequence number 0, length 0 and a correct checksum, which the
  parser accepts after its fourth byte.  For every number \<open>n + 1\<close> of passes the events
  are the start-up events and two page operations; no byte is ever sent, so there is no
  response frame and no sequence number in one.
\<close>

theorem accepted_frame_no_response:
  "is_spec_frame 0x1B [0x1B, 0, 0, 0, 0x0E, 0x15]
   \<and> (\<exists>s'. main (Suc n) 0x1B (s\<lparr>uart := map Some [0x1B, 0, 0, 0, 0x0E, 0x15]\<rparr>) = Some s'
         \<and> trace s' = startup_events (MCUSR s) (WDTCSR s)
                        @ page_events 0x20000 @ page_events 0x20100
         \<and> (\<forall>b. Sendchar b \<notin> set (trace s')))"
proof
  show "is_spec_frame 0x1B [0x1B, 0, 0, 0, 0x0E, 0x15]"
    by (simp add: is_spec_frame_def checksum_def)
  define s0 where "s0 = s\<lparr>uart := map Some [0x1B, 0, 0, 0, 0x0E, 0x15],
      address := (FLASHEND + 1) div 2, ii := 0, msgLength := 0,
      isLeave := 0, isTimeout := 0, GPIOR0 := MCUSR s, MCUSR := 0, WDTCSR := 0,
      trace := startup_events (MCUSR s) (WDTCSR s)\<rparr>"
  define s1 where "s1 = s0\<lparr>msgParseState := ST_START\<rparr>"
  define s2 where "s2 = (collect 0x1B s1)\<lparr>trace := trace s0 @ page_events (address s0),
      msgLength := 2, address := advance (address s0)\<rparr>"
  define s3 where "s3 = s2\<lparr>msgParseState := ST_START\<rparr>"
  define s4 where "s4 = (collect 0x1B s3)\<lparr>trace := trace s2 @ page_events (address s2),
      msgLength := 2, address := advance (address s2)\<rparr>"
  have m: "main (Suc n) 0x1B (s\<lparr>uart := map Some [0x1B, 0, 0, 0, 0x0E, 0x15]\<rparr>)
      = main_for (Suc n) 0x1B s0"
    by (simp add: main_entry s0_def)
  have c1: "collect 0x1B s1 = s1\<lparr>c := 0, uart := map Some [0x0E, 0x15], msgLength := 0,
      msgParseState := ST_PROCESS, ii := 0\<rparr>"
    using collect_length_zero_byte
      [where s = s1 and ms = "0x1B" and pre = "[]" and ?d0.0 = 0 and ?d1.0 = 0 and ?d2.0 = 0
        and ?d3.0 = 0 and x = 0 and rest = "map (Pair 0) [0x0E, 0x15]"]
    by (simp add: s1_def s0_def)
  have f1: "isLeave (collect 0x1B s1) = 0" "isTimeout (collect 0x1B s1) = 0"
    "uart (collect 0x1B s1) = map Some [0x0E, 0x15]"
    by (simp_all add: c1) (simp_all add: s1_def s0_def)
  have f2: "isLeave s2 = 0" "isTimeout s2 = 0" "uart s2 = map Some [0x0E, 0x15]"
    "address s2 = 0x20100"
    "trace s2 = startup_events (MCUSR s) (WDTCSR s) @ page_events 0x20000"
    by (simp_all add: s2_def f1) (simp_all add: s0_def advance_middle [unfolded middle] middle)
  have c3: "isTimeout (collect 0x1B s3) = 1"
    using collect_no_marker(2)
      [where s = s3 and ms = "0x1B" and xs = "map (Pair 0) [0x0E, 0x15]"] f2
    by (simp add: s3_def)
  then have t4: "isTimeout s4 = 1"
    by (simp add: s4_def)
  have "main_loop 0x1B s0 = main_loop 0x1B s2"
    unfolding s2_def s1_def by (rule main_loop_turn) (simp_all add: s0_def)
  also have "\<dots> = main_loop 0x1B s4"
    unfolding s4_def s3_def by (rule main_loop_turn) (simp_all add: f2)
  also have "\<dots> = Some s4"
    using t4 by (intro main_loop_stop) simp
  finally have "main_for (Suc n) 0x1B s0 = main_for n 0x1B s4"
    by simp
  also have "\<dots> = Some s4"
    using t4 by (intro main_for_stopped) simp
  finally have "main_for (Suc n) 0x1B s0 = Some s4" .
  then have r: "main (Suc n) 0x1B (s\<lparr>uart := map Some [0x1B, 0, 0, 0, 0x0E, 0x15]\<rparr>) = Some s4"
    by (simp only: m)
  have tr: "trace s4 = startup_events (MCUSR s) (WDTCSR s)
      @ page_events 0x20000 @ page_events 0x20100"
    by (simp add: s4_def f2)
  from r tr show "\<exists>s'. main (Suc n) 0x1B (s\<lparr>uart := map Some [0x1B, 0, 0, 0, 0x0E, 0x15]\<rparr>) = Some s'
         \<and> trace s' = startup_events (MCUSR s) (WDTCSR s)
                        @ page_events 0x20000 @ page_events 0x20100
         \<and> (\<forall>b. Sendchar b \<notin> set (trace s'))"
    by (simp add: no_app_start_in_pages no_app_start_in_startup)
qed




text \<open>
  Claim C8.  A run from reset, for any number of passes and any line, starts with the
  store of the reset cause \<^verbatim>\<open>MCUSR\<close> into \<^verbatim>\<open>GPIOR0\<close>, before any watchdog instruction or
  store; then come \<^verbatim>\<open>wdr\<close>, the clearing of \<^verbatim>\<open>MCUSR\<close>, the store that sets \<^verbatim>\<open>WDCE\<close> and
  \<^verbatim>\<open>WDE\<close>, and the store of 0 to \<^verbatim>\<open>WDTCSR\<close>, with no condition on anything.  \<^verbatim>\<open>GPIOR0\<close>
  still holds the reset cause, and \<^verbatim>\<open>WDTCSR\<close> is still 0, at every later point of the run.
\<close>

theorem reset_cause_saved_then_watchdog_off:
  "\<exists>s'. main n ms s = Some s' \<and> GPIOR0 s' = MCUSR s \<and> WDTCSR s' = 0
     \<and> take 7 (trace s') =
         [Store_GPIOR0 (MCUSR s), Cli, Wdr, Store_MCUSR 0,
          Store_WDTCSR (WDTCSR s OR (BV WDCE OR BV WDE)), Store_WDTCSR 0, Sei]"
proof -
  from main_shape [of n ms s] obtain s' as where
    r: "main n ms s = Some s'"
      "trace s' = startup_events (MCUSR s) (WDTCSR s) @ concat (map page_events as)"
      "GPIOR0 s' = MCUSR s" "WDTCSR s' = 0"
    by blast
  then show ?thesis
    by (simp add: startup_events_def)
qed

text \<open>
  Claim C9.  \<^verbatim>\<open>address\<close> starts at the middle of the flash (its value before the
  first pass) and lines 526 to 528 keep it
  page-aligned with its page below \<^verbatim>\<open>APP_END\<close>.  So in a run from reset, for any number
  of passes and any line: every erase and every write is at an address whose page ends
  at \<^verbatim>\<open>APP_END + 1\<close> at the latest (\<open>within_bound\<close>), every byte an erase, a fill or a write
  touches lies below \<^verbatim>\<open>APP_END\<close>, outside the \<^verbatim>\<open>2 * BOOTSIZE\<close> bytes at the top of the
  flash (\<open>below_boot\<close>), and the address the next turn would use satisfies the bound too.
\<close>

theorem page_operations_stay_in_application_region:
  "map_option address (main 0 ms s) = Some ((FLASHEND + 1) div 2)
   \<and> (\<exists>s'. main n ms s = Some s'
     \<and> list_all within_bound (trace s') \<and> list_all below_boot (trace s')
     \<and> unat (address s') + SPM_PAGESIZE \<le> unat APP_END + 1)"
proof
  show "map_option address (main 0 ms s) = Some ((FLASHEND + 1) div 2)"
    by (simp add: main_entry)
next
  from main_shape [of n ms s] obtain s' as where
    r: "main n ms s = Some s'"
      "trace s' = startup_events (MCUSR s) (WDTCSR s) @ concat (map page_events as)"
      "list_all cursor_inv as" "cursor_inv (address s')"
    by blast
  from r(4) have "unat (address s') + SPM_PAGESIZE \<le> unat APP_END + 1"
    by (simp add: cursor_inv_def)
  with r pages_bounds [OF r(3)] startup_events_bounds
  show "\<exists>s'. main n ms s = Some s'
     \<and> list_all within_bound (trace s') \<and> list_all below_boot (trace s')
     \<and> unat (address s') + SPM_PAGESIZE \<le> unat APP_END + 1"
    by simp
qed

text \<open>
  Claim C10, the claim as stated fails for a length of zero when no byte follows (start
  marker \<^verbatim>\<open>0x1B\<close>, line \<^verbatim>\<open>1B 00 00\<close>, then silence): the fourth read times out and
  returns 0, and the parser goes to \<^verbatim>\<open>ST_PROCESS\<close> all the same, with the timeout flag set
  and no further byte taken.
\<close>

theorem zero_length_processed_without_a_byte:
  "msgParseState (collect 0x1B (reset_state (map Some [0x1B, 0, 0]))) = ST_PROCESS
   \<and> isTimeout (collect 0x1B (reset_state (map Some [0x1B, 0, 0]))) = 1
   \<and> c (collect 0x1B (reset_state (map Some [0x1B, 0, 0]))) = 0
   \<and> uart (collect 0x1B (reset_state (map Some [0x1B, 0, 0]))) = []"
  using collect_length_zero_silent
    [where s = "reset_state (map Some [0x1B, 0, 0])" and ms = "0x1B" and pre = "[]"
      and ?d0.0 = 0 and ?d1.0 = 0 and ?d2.0 = 0]
  by (simp add: reset_state_def)

text \<open>
  Claim C10, amended.  A turn of the inner loop never increments the payload index
  \<^verbatim>\<open>ii\<close>: it sets it to 0 in the state \<^verbatim>\<open>ST_MSG_SIZE_2\<close> and leaves it alone in every other
  state.  So, once the first start marker and the bytes \<open>h\<close> and \<open>l\<close> after it have
  arrived, and whatever the line \<open>u\<close> does from then on: when \<open>h\<close> and \<open>l\<close> are not both
  0 the collection ends in \<^verbatim>\<open>ST_GET_DATA\<close> with the timeout flag set, never in
  \<^verbatim>\<open>ST_PROCESS\<close>; when both are 0 the next read ends it in \<^verbatim>\<open>ST_PROCESS\<close>.  That read takes
  exactly one byte and sets no flag when a byte arrives before its counter runs out;
  otherwise it times out, returns 0 and takes no byte, and the parser is in \<^verbatim>\<open>ST_PROCESS\<close>
  with the timeout flag set.
\<close>

theorem payload_index_never_incremented:
  assumes "msgParseState s = ST_START" "isLeave s = 0" "isTimeout s = 0"
    and "uart s = line (pre @ [(d0, ms), (d1, h), (d2, l)]) @ u"
    and "in_time (pre @ [(d0, ms), (d1, h), (d2, l)])"
    and "ms \<notin> set (map snd pre)"
  shows "ii (collect_step ms t) = (if msgParseState t = ST_MSG_SIZE_2 then 0 else ii t)
    \<and> (h \<noteq> 0 \<or> l \<noteq> 0 \<longrightarrow>
          msgParseState (collect ms s) = ST_GET_DATA \<and> isTimeout (collect ms s) = 1)
    \<and> (h = 0 \<and> l = 0 \<longrightarrow>
          msgParseState (collect ms s) = ST_PROCESS
          \<and> (let k = length (takeWhile (\<lambda>p. p = None) u) in
              if k < length u \<and> k \<le> unat MAX_TIME_COUNT
              then isTimeout (collect ms s) = 0 \<and> c (collect ms s) = the (u ! k)
                   \<and> uart (collect ms s) = drop (Suc k) u
              else isTimeout (collect ms s) = 1 \<and> c (collect ms s) = 0
                   \<and> uart (collect ms s) = drop (unat MAX_TIME_COUNT + 1) u))"
proof (intro conjI impI)
  show "ii (collect_step ms t) = (if msgParseState t = ST_MSG_SIZE_2 then 0 else ii t)"
    by (simp add: collect_step_def Let_def split: prod.splits parse_state.splits)
next
  let ?s3 = "s\<lparr>c := l, uart := u, msgLength := push_bit 8 (ucast h) OR ucast l,
                msgParseState := ST_GET_DATA, ii := 0\<rparr>"
  have hd: "collect ms s = collect ms ?s3"
    using assms
    by (intro collect_header [where pre = pre and ?d0.0 = d0 and ?d1.0 = d1 and ?d2.0 = d2])
  {
    assume nz: "h \<noteq> 0 \<or> l \<noteq> 0"
    have "msgParseState (collect ms ?s3) = ST_GET_DATA \<and> isTimeout (collect ms ?s3) = 1"
    proof (rule collect_data_stuck_any)
      show "ii ?s3 \<noteq> msgLength ?s3"
        using nz length_zero_iff [of h l] by auto
    qed (use assms in simp_all)
    then show "msgParseState (collect ms s) = ST_GET_DATA" "isTimeout (collect ms s) = 1"
      by (simp_all add: hd)
  }
  {
    assume z: "h = 0 \<and> l = 0"
    have one: "collect ms ?s3 = collect_step ms ?s3"
      "msgParseState (collect_step ms ?s3) = ST_PROCESS"
      by (rule collect_data_one_read; use assms z in simp)+
    then show "msgParseState (collect ms s) = ST_PROCESS"
      by (simp add: hd)
    from collect_step_read [of ?s3 ms]
    show "let k = length (takeWhile (\<lambda>p. p = None) u) in
              if k < length u \<and> k \<le> unat MAX_TIME_COUNT
              then isTimeout (collect ms s) = 0 \<and> c (collect ms s) = the (u ! k)
                   \<and> uart (collect ms s) = drop (Suc k) u
              else isTimeout (collect ms s) = 1 \<and> c (collect ms s) = 0
                   \<and> uart (collect ms s) = drop (unat MAX_TIME_COUNT + 1) u"
      using assms(3) by (simp add: hd one(1) Let_def)
  }
qed

text \<open>
  Three runs of the amended claim C10: the length bytes 0 and 5; the length bytes 0 and 0
  with the byte 9 arriving after one test that finds the flag clear; the length bytes 0
  and 0 with silence after them.
\<close>

theorem payload_index_never_incremented_witness:
  "msgParseState (collect 0x1B
      (reset_state (line [(2, 0x1B), (0, 0), (1, 5)] @ [Some 1, None, Some 2]))) = ST_GET_DATA
   \<and> isTimeout (collect 0x1B
      (reset_state (line [(2, 0x1B), (0, 0), (1, 5)] @ [Some 1, None, Some 2]))) = 1
   \<and> msgParseState (collect 0x1B
      (reset_state (line [(2, 0x1B), (0, 0), (1, 0)] @ [None, Some 9, Some 7]))) = ST_PROCESS
   \<and> isTimeout (collect 0x1B
      (reset_state (line [(2, 0x1B), (0, 0), (1, 0)] @ [None, Some 9, Some 7]))) = 0
   \<and> uart (collect 0x1B
      (reset_state (line [(2, 0x1B), (0, 0), (1, 0)] @ [None, Some 9, Some 7]))) = [Some 7]
   \<and> msgParseState (collect 0x1B
      (reset_state (line [(2, 0x1B), (0, 0), (1, 0)] @ []))) = ST_PROCESS
   \<and> isTimeout (collect 0x1B
      (reset_state (line [(2, 0x1B), (0, 0), (1, 0)] @ []))) = 1"
  using payload_index_never_incremented
      [where s = "reset_state (line [(2, 0x1B), (0, 0), (1, 5)] @ [Some 1, None, Some 2])"
        and ms = "0x1B" and pre = "[]" and ?d0.0 = 2 and ?d1.0 = 0 and ?d2.0 = 1
        and h = 0 and l = 5 and u = "[Some 1, None, Some 2]"]
    payload_index_never_incremented
      [where s = "reset_state (line [(2, 0x1B), (0, 0), (1, 0)] @ [None, Some 9, Some 7])"
        and ms = "0x1B" and pre = "[]" and ?d0.0 = 2 and ?d1.0 = 0 and ?d2.0 = 1
        and h = 0 and l = 0 and u = "[None, Some 9, Some 7]"]
    payload_index_never_incremented
      [where s = "reset_state (line [(2, 0x1B), (0, 0), (1, 0)] @ [])"
        and ms = "0x1B" and pre = "[]" and ?d0.0 = 2 and ?d1.0 = 0 and ?d2.0 = 1
        and h = 0 and l = 0 and u = "[]"]
  by (simp add: reset_state_def MAX_TIME_COUNT_unat Let_def)

end
